theory Spec2Isabelle
  imports
    Main
    "HOL-Library.AList"
    "HOL-Library.Sublist"
    "HOL-Library.Char_ord"
    "HOL-Library.List_Lexorder"
begin

section \<open>The HTTP feed node of minemeld/ft/http.py\<close>

text \<open>
  The class \<open>HttpFT\<close> polls a feed over HTTP, turns each line into an indicator,
  reconciles the indicators with a table keyed by indicator, and emits update and withdraw
  messages. This theory embeds its methods as functions over an explicit node state and
  proves properties of them.
\<close>

subsection \<open>Python values, errors and what the node does to the outside\<close>

text \<open>The Python values that occur as attribute values and as RPC arguments.\<close>

datatype pyval = PNone | PBool bool | PInt int | PStr string | PList "pyval list"

text \<open>An attribute dictionary (a Python dict with string keys).\<close>

type_synonym attrs = "string \<rightharpoonup> pyval"

text \<open>
  The exceptions the methods raise or let through. \<open>RequestError\<close> stands for whatever
  \<open>requests.get\<close>, \<open>raise_for_status\<close> or the iteration of the body raises;
  \<open>GreenletExit\<close> is what \<open>kill\<close> raises inside the greenlet.
\<close>

datatype error =
    ValueError string
  | KeyError string
  | IndexError
  | RequestError
  | GreenletExit

text \<open>
  Everything the node does that an observer outside can see, in the order it happens:
  the messages of \<open>emit_update\<close>, \<open>emit_withdraw\<close> and \<open>do_rpc\<close>, the calls of
  \<open>gevent.sleep\<close>, \<open>LOG.exception\<close> and \<open>LOG.warning\<close>, and the kills of \<open>stop\<close>.
  \<open>SleepMillis d\<close> is \<open>gevent.sleep(d/1000.0)\<close>.
\<close>

datatype action =
    EmitUpdate string attrs
  | EmitWithdraw string attrs
  | DoRpc pyval string string attrs
  | SleepSeconds int
  | SleepMillis int
  | LogException
  | LogWarning
  | KillRequest
  | KillGlet

subsection \<open>The table\<close>

text \<open>
  The table is an association list from indicator to attributes. The list holds each
  indicator at most once (\<open>distinct (map fst t)\<close>), which \<open>table_put\<close> and
  \<open>table_delete\<close> keep.
\<close>

type_synonym table = "(string \<times> attrs) list"

text \<open>
  Modelled from the spec: \<open>Table.get\<close> of minemeld/ft/table.py, which is not among the
  sources. The state store's \<open>get(key)\<close> gives the value or absent.
\<close>

definition table_get :: "table \<Rightarrow> string \<Rightarrow> attrs option" where
  "table_get t k = map_of t k"

text \<open>
  Modelled from the spec: \<open>Table.put\<close> of minemeld/ft/table.py. \<open>put(key, value)\<close> is
  an upsert.
\<close>

definition table_put :: "table \<Rightarrow> string \<Rightarrow> attrs \<Rightarrow> table" where
  "table_put t k v = AList.update k v t"

text \<open>
  Modelled from the spec: \<open>Table.delete\<close> of minemeld/ft/table.py. \<open>delete(key)\<close> is a
  no-op if the key is absent.
\<close>

definition table_delete :: "table \<Rightarrow> string \<Rightarrow> table" where
  "table_delete t k = AList.delete k t"

text \<open>
  Modelled from the spec: \<open>Table.num_indicators\<close> of minemeld/ft/table.py, the current
  record count.
\<close>

definition num_indicators :: "table \<Rightarrow> nat" where
  "num_indicators t = length t"

text \<open>
  The key of a record in the index on \<open>_updated\<close>: its \<open>_updated\<close> attribute when that
  is an integer. A record without one is not in the index.
\<close>

definition index_key :: "attrs \<Rightarrow> int option" where
  "index_key v = (case v ''_updated'' of Some (PInt u) \<Rightarrow> Some u | _ \<Rightarrow> None)"

definition in_range :: "int option \<Rightarrow> int option \<Rightarrow> int \<Rightarrow> bool" where
  "in_range from_key to_key u =
     ((case from_key of None \<Rightarrow> True | Some a \<Rightarrow> a \<le> u) \<and>
      (case to_key of None \<Rightarrow> True | Some b \<Rightarrow> u < b))"

definition indexed :: "table \<Rightarrow> (int \<times> string \<times> attrs) list" where
  "indexed t = List.map_filter (\<lambda>(k, v). map_option (\<lambda>u. (u, k, v)) (index_key v)) t"

text \<open>
  Modelled from the spec: \<open>Table.query\<close> of minemeld/ft/table.py, for the index
  \<open>_updated\<close> with \<open>include_value=True\<close>. The spec gives the store a secondary
  time-ordered index that supports ascending range scans, bounded or unbounded on either
  side (an absent bound is unbounded), and reads the scan of the reconciliation cycle, whose
  upper bound is \<open>T - 1\<close>, as the entries with \<open>_updated\<close> strictly less than \<open>T - 1\<close>:
  the lower bound is included and the upper bound is not. The sequence is in ascending
  order of the index key \<open>_updated\<close>; entries with the same \<open>_updated\<close> keep the order of
  the table (the spec does not say).
\<close>

definition table_query :: "table \<Rightarrow> int option \<Rightarrow> int option \<Rightarrow> (string \<times> attrs) list" where
  "table_query t from_key to_key =
     map snd (sort_key fst (filter (\<lambda>(u, kv). in_range from_key to_key u) (indexed t)))"

subsection \<open>The node, its configuration and its hooks\<close>

text \<open>
  A greenlet handle: the delay it was spawned with and whether \<open>kill\<close> was called on it.
\<close>

record greenlet =
  delay :: int
  killed :: bool

text \<open>
  The fields of the object that the methods read and write (\<open>glet\<close>, \<open>table\<close>,
  \<open>active_requests\<close>, \<open>reinit_flag\<close>), the number of clock readings taken so far, and
  the actions done so far.
\<close>

record node =
  glet :: "greenlet option"
  table :: table
  active_requests :: "greenlet list"
  reinit_flag :: bool
  ticks :: nat
  out :: "action list"

text \<open>The fields that \<open>configure\<close> reads from the configuration.\<close>

record config =
  source_name :: string
  url :: "string option"
  cchar :: "string option"
  split_char :: "string option"
  split_pos :: int
  attributes :: attrs
  interval :: int
  force_updates :: bool
  polling_timeout :: int
  num_retries :: int

text \<open>
  The two methods a subclass overrides: \<open>_values_compare(d1, d2)\<close> and
  \<open>_process_line(line)\<close>, which returns the indicator (or \<open>None\<close>) and its attributes,
  or raises.
\<close>

record hooks =
  values_compare :: "attrs \<Rightarrow> attrs \<Rightarrow> bool"
  process_line :: "config \<Rightarrow> string \<Rightarrow> error + (string option \<times> attrs)"

text \<open>
  \<open>__init__\<close>: no greenlet, the table as the store holds it, no active requests.
\<close>

definition init :: "table \<Rightarrow> bool \<Rightarrow> node" where
  "init t reinit =
     \<lparr>glet = None, table = t, active_requests = [], reinit_flag = reinit,
      ticks = 0, out = []\<rparr>"

text \<open>
  Modelled from the spec: \<open>utc_millisec\<close> of minemeld/ft/utils.py, the current time in
  milliseconds since the epoch. The clock is a parameter: \<open>clk n\<close> is what the \<open>n\<close>-th
  reading gives.
\<close>

definition utc_millisec :: "(nat \<Rightarrow> int) \<Rightarrow> node \<Rightarrow> int \<times> node" where
  "utc_millisec clk s = (clk (ticks s), s\<lparr>ticks := Suc (ticks s)\<rparr>)"

definition act :: "action \<Rightarrow> node \<Rightarrow> node" where
  "act a s = s\<lparr>out := out s @ [a]\<rparr>"

text \<open>
  Modelled from the spec: \<open>emit_update\<close>, \<open>emit_withdraw\<close> and \<open>do_rpc\<close> of
  minemeld/ft/base.py: fire-and-forget messages, recorded in \<open>out\<close>.
\<close>

definition emit_update :: "string \<Rightarrow> attrs \<Rightarrow> node \<Rightarrow> node" where
  "emit_update i v s = act (EmitUpdate i v) s"

definition emit_withdraw :: "string \<Rightarrow> attrs \<Rightarrow> node \<Rightarrow> node" where
  "emit_withdraw i v s = act (EmitWithdraw i v) s"

definition do_rpc :: "pyval \<Rightarrow> string \<Rightarrow> string \<Rightarrow> attrs \<Rightarrow> node \<Rightarrow> node" where
  "do_rpc source method i v s = act (DoRpc source method i v) s"

subsection \<open>Python's string methods\<close>

text \<open>The whitespace of \<open>str.strip()\<close> and \<open>str.split()\<close>.\<close>

definition is_space :: "char \<Rightarrow> bool" where
  "is_space c = (c \<in> set [CHR '' '', CHR 0x09, CHR 0x0A, CHR 0x0B, CHR 0x0C, CHR 0x0D])"

definition strip :: "string \<Rightarrow> string" where
  "strip s = rev (dropWhile is_space (rev (dropWhile is_space s)))"

text \<open>\<open>str.split()\<close>: the words between runs of whitespace, none of them empty.\<close>

fun split_ws_aux :: "string \<Rightarrow> string \<Rightarrow> string list" where
  "split_ws_aux acc [] = (if acc = [] then [] else [rev acc])"
| "split_ws_aux acc (c # cs) =
     (if is_space c
      then (if acc = [] then split_ws_aux [] cs else rev acc # split_ws_aux [] cs)
      else split_ws_aux (c # acc) cs)"

definition split_ws :: "string \<Rightarrow> string list" where
  "split_ws s = split_ws_aux [] s"

text \<open>
  \<open>str.split(sep)\<close>: the pieces between the occurrences of \<open>sep\<close>, found from the left;
  an empty separator raises \<open>ValueError\<close>.
\<close>

function split_sep_aux :: "string \<Rightarrow> string \<Rightarrow> string \<Rightarrow> string list" where
  "split_sep_aux sep acc [] = [rev acc]"
| "split_sep_aux sep acc (c # cs) =
     (if sep \<noteq> [] \<and> prefix sep (c # cs)
      then rev acc # split_sep_aux sep [] (drop (length sep) (c # cs))
      else split_sep_aux sep (c # acc) cs)"
  by pat_completeness auto
termination
  by (relation "measure (\<lambda>(sep, acc, s). length s)") (auto simp: neq_Nil_conv)

definition py_split :: "string \<Rightarrow> string \<Rightarrow> error + string list" where
  "py_split sep s =
     (if sep = [] then Inl (ValueError ''empty separator'') else Inr (split_sep_aux sep [] s))"

text \<open>\<open>xs[i]\<close>: a negative index counts from the end, an index out of range raises.\<close>

definition py_index :: "'a list \<Rightarrow> int \<Rightarrow> error + 'a" where
  "py_index xs i =
     (if 0 \<le> i \<and> i < int (length xs) then Inr (xs ! nat i)
      else if i < 0 \<and> - int (length xs) \<le> i then Inr (xs ! nat (int (length xs) + i))
      else Inl IndexError)"

subsection \<open>The default hooks\<close>

text \<open>\<open>_values_compare\<close> returns \<open>True\<close>.\<close>

definition values_compare_default :: "attrs \<Rightarrow> attrs \<Rightarrow> bool" where
  "values_compare_default d1 d2 = True"

text \<open>
  \<open>_process_line\<close>: \<open>line.split()[0]\<close> with a copy of the configured attributes; the
  index raises when the line has no word.
\<close>

definition process_line_default :: "config \<Rightarrow> string \<Rightarrow> error + (string option \<times> attrs)" where
  "process_line_default cfg line =
     (case py_index (split_ws line) 0 of
        Inl e \<Rightarrow> Inl e
      | Inr w \<Rightarrow> Inr (Some w, attributes cfg))"

definition HttpFT_hooks :: hooks where
  "HttpFT_hooks =
     \<lparr>values_compare = values_compare_default, process_line = process_line_default\<rparr>"

subsection \<open>One line of the feed\<close>

text \<open>
  Lines 61 to 73 of \<open>_polling_loop\<close>: strip the line, skip it (\<open>None\<close>) when it is empty
  or starts with the comment prefix, and with a split character take the token at
  \<open>split_pos\<close>, stripped, skipping the line when it has too few tokens.
\<close>

definition normalize :: "config \<Rightarrow> string \<Rightarrow> error + string option" where
  "normalize cfg raw =
     (let line = strip raw in
      if line = [] then Inr None
      else if (case cchar cfg of None \<Rightarrow> False | Some c \<Rightarrow> prefix c line) then Inr None
      else (case split_char cfg of
              None \<Rightarrow> Inr (Some line)
            | Some sc \<Rightarrow>
                (case py_split sc line of
                   Inl e \<Rightarrow> Inl e
                 | Inr toks \<Rightarrow>
                     if int (length toks) < split_pos cfg + 1 then Inr None
                     else (case py_index toks (split_pos cfg) of
                             Inl e \<Rightarrow> Inl e
                           | Inr tok \<Rightarrow> Inr (Some (strip tok))))))"

text \<open>
  Lines 61 to 77: what a line gives, before the table is touched: an exception, nothing
  (the line is skipped), or an indicator with its attributes.
\<close>

definition parse_line :: "hooks \<Rightarrow> config \<Rightarrow> string \<Rightarrow> error + (string \<times> attrs) option" where
  "parse_line hk cfg raw =
     (case normalize cfg raw of
        Inl e \<Rightarrow> Inl e
      | Inr None \<Rightarrow> Inr None
      | Inr (Some line) \<Rightarrow>
          (case process_line hk cfg line of
             Inl e \<Rightarrow> Inl e
           | Inr (None, a) \<Rightarrow> Inr None
           | Inr (Some i, a) \<Rightarrow> Inr (Some (i, a))))"

text \<open>
  Lines 79 to 87: the attributes that are written for an indicator. \<open>ev\<close> is the record
  the table holds for it. The clock is read for \<open>_updated\<close>, for \<open>first_seen\<close> when there
  is no record, and for \<open>last_seen\<close>; \<open>ev['first_seen']\<close> raises \<open>KeyError\<close> when the
  record has no such attribute.
\<close>

definition stamp ::
  "(nat \<Rightarrow> int) \<Rightarrow> config \<Rightarrow> attrs option \<Rightarrow> attrs \<Rightarrow> node \<Rightarrow> (error + attrs) \<times> node" where
  "stamp clk cfg ev a s =
     (let a1 = a(''sources'' \<mapsto> PList [PStr (source_name cfg)]);
          (t1, s1) = utc_millisec clk s;
          a2 = a1(''_updated'' \<mapsto> PInt t1)
      in case ev of
           Some e \<Rightarrow>
             (case e ''first_seen'' of
                None \<Rightarrow> (Inl (KeyError ''first_seen''), s1)
              | Some fs \<Rightarrow>
                  (let a3 = a2(''first_seen'' \<mapsto> fs);
                       (t3, s3) = utc_millisec clk s1
                   in (Inr (a3(''last_seen'' \<mapsto> PInt t3)), s3)))
         | None \<Rightarrow>
             (let (t2, s2) = utc_millisec clk s1;
                  a3 = a2(''first_seen'' \<mapsto> PInt t2);
                  (t3, s3) = utc_millisec clk s2
              in (Inr (a3(''last_seen'' \<mapsto> PInt t3)), s3)))"

text \<open>Lines 89 to 92: whether the update is sent.\<close>

definition send_update :: "hooks \<Rightarrow> config \<Rightarrow> attrs option \<Rightarrow> attrs \<Rightarrow> bool" where
  "send_update hk cfg ev a =
     (case ev of
        None \<Rightarrow> True
      | Some e \<Rightarrow> if \<not> force_updates cfg then \<not> values_compare hk e a else True)"

text \<open>
  Lines 79 to 99: an indicator is stamped, put in the table, and emitted when the update is
  to be sent.
\<close>

definition reconcile ::
  "(nat \<Rightarrow> int) \<Rightarrow> hooks \<Rightarrow> config \<Rightarrow> string \<Rightarrow> attrs \<Rightarrow> node \<Rightarrow> error option \<times> node" where
  "reconcile clk hk cfg i a s =
     (let ev = table_get (table s) i in
      case stamp clk cfg ev a s of
        (Inl e, s1) \<Rightarrow> (Some e, s1)
      | (Inr a', s1) \<Rightarrow>
          (let s2 = s1\<lparr>table := table_put (table s1) i a'\<rparr>
           in (None, if send_update hk cfg ev a' then emit_update i a' s2 else s2)))"

text \<open>Lines 60 to 99: the loop over the lines; an exception ends it.\<close>

fun process_lines ::
  "(nat \<Rightarrow> int) \<Rightarrow> hooks \<Rightarrow> config \<Rightarrow> string list \<Rightarrow> node \<Rightarrow> error option \<times> node" where
  "process_lines clk hk cfg [] s = (None, s)"
| "process_lines clk hk cfg (raw # rest) s =
     (case parse_line hk cfg raw of
        Inl e \<Rightarrow> (Some e, s)
      | Inr None \<Rightarrow> process_lines clk hk cfg rest s
      | Inr (Some (i, a)) \<Rightarrow>
          (case reconcile clk hk cfg i a s of
             (Some e, s1) \<Rightarrow> (Some e, s1)
           | (None, s1) \<Rightarrow> process_lines clk hk cfg rest s1))"

text \<open>
  Lines 101 to 105: every entry the query gives is deleted and withdrawn, in the order of
  the query.
\<close>

primrec withdraw_all :: "config \<Rightarrow> (string \<times> attrs) list \<Rightarrow> node \<Rightarrow> node" where
  "withdraw_all cfg [] s = s"
| "withdraw_all cfg (iv # rest) s =
     withdraw_all cfg rest
       (emit_withdraw (fst iv) [''sources'' \<mapsto> PList [PStr (source_name cfg)]]
          (s\<lparr>table := table_delete (table s) (fst iv)\<rparr>))"

definition withdraw_old :: "config \<Rightarrow> int \<Rightarrow> node \<Rightarrow> node" where
  "withdraw_old cfg now s =
     withdraw_all cfg (table_query (table s) (Some 0) (Some (now - 1))) s"

text \<open>
  What the HTTP request gives: an exception of \<open>requests.get\<close> or \<open>raise_for_status\<close>,
  or the lines of the body, after which the iteration may raise.
\<close>

type_synonym response = "error + (string list \<times> error option)"

text \<open>
  \<open>_polling_loop\<close>: one reconciliation cycle. The result is the exception that ended it,
  if any, and the node as the cycle left it.
\<close>

definition polling_loop ::
  "(nat \<Rightarrow> int) \<Rightarrow> hooks \<Rightarrow> config \<Rightarrow> response \<Rightarrow> node \<Rightarrow> error option \<times> node" where
  "polling_loop clk hk cfg r s =
     (let (now, s0) = utc_millisec clk s in
      case r of
        Inl e \<Rightarrow> (Some e, s0)
      | Inr (lines, failure) \<Rightarrow>
          (case process_lines clk hk cfg lines s0 of
             (Some e, s1) \<Rightarrow> (Some e, s1)
           | (None, s1) \<Rightarrow>
               (case failure of
                  Some e \<Rightarrow> (Some e, s1)
                | None \<Rightarrow> (None, withdraw_old cfg now s1))))"

subsection \<open>The background task\<close>

text \<open>
  \<open>random.randint(a, b)\<close> of Python's library gives an integer \<open>N\<close> with
  \<open>a \<le> N \<le> b\<close>; which one is decided by the entropy drawn, a parameter here.
\<close>

definition randint :: "int \<Rightarrow> int \<Rightarrow> nat \<Rightarrow> int" where
  "randint a b seed = a + int (seed mod nat (b - a + 1))"

text \<open>
  Lines 138 to 141 of \<open>_run\<close>: while \<open>deltat\<close> is negative a warning is logged and one
  interval is added. The loop need not end, so the result is optional: \<open>None\<close> is the
  loop that runs forever.
\<close>

partial_function (option) overrun :: "config \<Rightarrow> int \<Rightarrow> node \<Rightarrow> (int \<times> node) option" where
  "overrun cfg deltat s =
     (if deltat < 0 then overrun cfg (deltat + interval cfg * 1000) (act LogWarning s)
      else Some (deltat, s))"

text \<open>
  Lines 135 to 143: the time left until the next cycle is computed from the start of the
  cycle, adjusted, and slept.
\<close>

definition schedule :: "(nat \<Rightarrow> int) \<Rightarrow> config \<Rightarrow> int \<Rightarrow> node \<Rightarrow> node option" where
  "schedule clk cfg lastrun s =
     (let (now, s1) = utc_millisec clk s;
          deltat = (lastrun + interval cfg * 1000) - now
      in case overrun cfg deltat s1 of
           None \<Rightarrow> None
         | Some (d, s2) \<Rightarrow> Some (act (SleepMillis d) s2))"

text \<open>How one pass of the \<open>while True\<close> loop ends: \<open>return\<close>, or the next pass with a
  retry counter.\<close>

datatype control = Return | Continue int

text \<open>
  Lines 120 to 143: one pass of the loop of \<open>_run\<close> with retry counter \<open>tryn\<close>. \<open>r\<close> is
  what the HTTP request of this pass gives and \<open>seed\<close> the entropy for the retry delay.
\<close>

definition run_iteration ::
  "(nat \<Rightarrow> int) \<Rightarrow> hooks \<Rightarrow> config \<Rightarrow> response \<Rightarrow> nat \<Rightarrow> int \<Rightarrow> node \<Rightarrow> (control \<times> node) option" where
  "run_iteration clk hk cfg r seed tryn s =
     (let (lastrun, s0) = utc_millisec clk s in
      case polling_loop clk hk cfg r s0 of
        (Some e, s1) \<Rightarrow>
          if e = GreenletExit then Some (Return, s1)
          else
            (let s2 = act LogException s1;
                 tryn1 = tryn + 1
             in if tryn1 < num_retries cfg
                then Some (Continue tryn1, act (SleepSeconds (randint 1 5 seed)) s2)
                else map_option (Pair (Continue 0)) (schedule clk cfg lastrun s2))
      | (None, s1) \<Rightarrow> map_option (Pair (Continue 0)) (schedule clk cfg lastrun s1))"

text \<open>Lines 113 to 117: without the reinit flag every indicator of the table is emitted.\<close>

primrec update_all :: "(string \<times> attrs) list \<Rightarrow> node \<Rightarrow> node" where
  "update_all [] s = s"
| "update_all (iv # rest) s = update_all rest (emit_update (fst iv) (snd iv) s)"

definition run_entry :: "node \<Rightarrow> node" where
  "run_entry s =
     (if \<not> reinit_flag s then update_all (table_query (table s) None None) s else s)"

text \<open>
  The loop of \<open>_run\<close> over the passes for which an input is given: it ends when a pass
  returns, and has no result when a pass never ends.
\<close>

fun run_loop ::
  "(nat \<Rightarrow> int) \<Rightarrow> hooks \<Rightarrow> config \<Rightarrow> (response \<times> nat) list \<Rightarrow> int \<Rightarrow> node \<Rightarrow> node option" where
  "run_loop clk hk cfg [] tryn s = Some s"
| "run_loop clk hk cfg (rs # rest) tryn s =
     (case run_iteration clk hk cfg (fst rs) (snd rs) tryn s of
        None \<Rightarrow> None
      | Some (Return, s1) \<Rightarrow> Some s1
      | Some (Continue t, s1) \<Rightarrow> run_loop clk hk cfg rest t s1)"

definition run ::
  "(nat \<Rightarrow> int) \<Rightarrow> hooks \<Rightarrow> config \<Rightarrow> (response \<times> nat) list \<Rightarrow> node \<Rightarrow> node option" where
  "run clk hk cfg inputs s = run_loop clk hk cfg inputs 0 (run_entry s)"

subsection \<open>The RPC methods\<close>

primrec rpc_all :: "pyval \<Rightarrow> (string \<times> attrs) list \<Rightarrow> node \<Rightarrow> node" where
  "rpc_all source [] s = s"
| "rpc_all source (iv # rest) s = rpc_all source rest (do_rpc source ''update'' (fst iv) (snd iv) s)"

definition send_indicators :: "pyval \<Rightarrow> int option \<Rightarrow> int option \<Rightarrow> node \<Rightarrow> node" where
  "send_indicators source from_key to_key s =
     rpc_all source (table_query (table s) from_key to_key) s"

text \<open>\<open>get\<close>: an indicator that is not a string raises \<open>ValueError\<close>.\<close>

definition get :: "pyval \<Rightarrow> pyval \<Rightarrow> node \<Rightarrow> (error + attrs option) \<times> node" where
  "get source indicator s =
     (case indicator of
        PStr k \<Rightarrow> (Inr (table_get (table s) k), s)
      | _ \<Rightarrow> (Inl (ValueError ''Invalid indicator type''), s))"

definition get_all :: "pyval \<Rightarrow> node \<Rightarrow> (error + string) \<times> node" where
  "get_all source s = (Inr ''OK'', send_indicators source None None s)"

text \<open>\<open>get_range\<close>: an index that is neither \<open>None\<close> nor \<open>'_updated'\<close> raises
  \<open>ValueError\<close>.\<close>

definition get_range ::
  "pyval \<Rightarrow> pyval \<Rightarrow> int option \<Rightarrow> int option \<Rightarrow> node \<Rightarrow> (error + string) \<times> node" where
  "get_range source index from_key to_key s =
     (if index \<noteq> PNone \<and> index \<noteq> PStr ''_updated''
      then (Inl (ValueError ''Index not found''), s)
      else (Inr ''OK'', send_indicators source from_key to_key s))"

definition length_ft :: "pyval \<Rightarrow> node \<Rightarrow> nat \<times> node" where
  "length_ft source s = (num_indicators (table s), s)"

subsection \<open>Start and stop\<close>

text \<open>
  \<open>start\<close>: nothing when there is a greenlet; otherwise \<open>_run\<close> is spawned after
  \<open>random.randint(0, 2)\<close> seconds.
\<close>

definition start :: "nat \<Rightarrow> node \<Rightarrow> node" where
  "start seed s =
     (case glet s of
        Some g \<Rightarrow> s
      | None \<Rightarrow> s\<lparr>glet := Some \<lparr>delay = randint 0 2 seed, killed = False\<rparr>\<rparr>)"

primrec kill_all :: "greenlet list \<Rightarrow> node \<Rightarrow> node" where
  "kill_all [] s = s"
| "kill_all (g # gs) s = kill_all gs (act KillRequest s)"

text \<open>
  \<open>stop\<close>: nothing when there is no greenlet; otherwise every active request is killed
  and then the greenlet, whose handle stays in \<open>glet\<close>.
\<close>

definition stop :: "node \<Rightarrow> node" where
  "stop s =
     (case glet s of
        None \<Rightarrow> s
      | Some g \<Rightarrow>
          (let s1 = kill_all (active_requests s) s;
               s2 = s1\<lparr>active_requests := map (\<lambda>r. r\<lparr>killed := True\<rparr>) (active_requests s1)\<rparr>
           in act KillGlet (s2\<lparr>glet := Some (g\<lparr>killed := True\<rparr>)\<rparr>)))"

subsection \<open>Sequences of calls\<close>

text \<open>
  What can happen to a node after \<open>__init__\<close>: the calls of its public methods, and the
  steps of the background task (its entry, a pass of its loop with any retry counter, a
  reconciliation cycle).
\<close>

datatype call =
    Start nat
  | Stop
  | Get pyval pyval
  | GetAll pyval
  | GetRange pyval pyval "int option" "int option"
  | Length pyval
  | RunEntry
  | RunIteration response nat int
  | Poll response

fun apply_call :: "(nat \<Rightarrow> int) \<Rightarrow> hooks \<Rightarrow> config \<Rightarrow> call \<Rightarrow> node \<Rightarrow> node option" where
  "apply_call clk hk cfg (Start seed) s = Some (start seed s)"
| "apply_call clk hk cfg Stop s = Some (stop s)"
| "apply_call clk hk cfg (Get source i) s = Some (snd (get source i s))"
| "apply_call clk hk cfg (GetAll source) s = Some (snd (get_all source s))"
| "apply_call clk hk cfg (GetRange source index f t) s = Some (snd (get_range source index f t s))"
| "apply_call clk hk cfg (Length source) s = Some (snd (length_ft source s))"
| "apply_call clk hk cfg RunEntry s = Some (run_entry s)"
| "apply_call clk hk cfg (RunIteration r seed tryn) s =
     map_option snd (run_iteration clk hk cfg r seed tryn s)"
| "apply_call clk hk cfg (Poll r) s = Some (snd (polling_loop clk hk cfg r s))"

fun run_calls :: "(nat \<Rightarrow> int) \<Rightarrow> hooks \<Rightarrow> config \<Rightarrow> call list \<Rightarrow> node \<Rightarrow> node option" where
  "run_calls clk hk cfg [] s = Some s"
| "run_calls clk hk cfg (c # cs) s =
     (case apply_call clk hk cfg c s of
        None \<Rightarrow> None
      | Some s1 \<Rightarrow> run_calls clk hk cfg cs s1)"

subsection \<open>A configuration with the defaults of \<open>configure\<close>\<close>

text \<open>
  \<open>configure\<close> with an empty configuration: the source name is the node's name, no URL,
  no comment prefix, no split character, an interval of a day, two tries.
\<close>

definition default_config :: "string \<Rightarrow> config" where
  "default_config nm =
     \<lparr>source_name = nm, url = None, cchar = None, split_char = None, split_pos = 0,
      attributes = Map.empty, interval = 86400, force_updates = False,
      polling_timeout = 20, num_retries = 2\<rparr>"

text \<open>
  The fields of the node that no step of the polling changes: the greenlet handle, the
  active requests and the reinit flag.
\<close>

definition handles :: "node \<Rightarrow> greenlet option \<times> greenlet list \<times> bool" where
  "handles s = (glet s, active_requests s, reinit_flag s)"

subsection \<open>Notions for stating the properties\<close>

text \<open>
  What every table the polling loop builds satisfies, whatever the clock: every indicator
  is in it once, and every record has a \<open>first_seen\<close> attribute.
\<close>

definition table_wf :: "table \<Rightarrow> bool" where
  "table_wf t =
     (distinct (map fst t) \<and> list_all (\<lambda>kv. snd kv ''first_seen'' \<noteq> None) t)"

text \<open>
  The tables the polling loop builds: every indicator once, and every record with a
  \<open>first_seen\<close> attribute and an integer \<open>_updated\<close> that is not negative (a time in
  milliseconds since the epoch).
\<close>

definition table_ok :: "table \<Rightarrow> bool" where
  "table_ok t =
     (distinct (map fst t) \<and>
      list_all (\<lambda>kv. snd kv ''first_seen'' \<noteq> None \<and>
                     (case index_key (snd kv) of Some u \<Rightarrow> 0 \<le> u | None \<Rightarrow> False)) t)"

text \<open>A record is stale for a cycle that started at \<open>T\<close> when its \<open>_updated\<close> is
  strictly less than \<open>T - 1\<close>.\<close>

definition stale :: "int \<Rightarrow> attrs \<Rightarrow> bool" where
  "stale T v = (case index_key v of Some u \<Rightarrow> u < T - 1 | None \<Rightarrow> False)"

definition updated_of :: "attrs \<Rightarrow> int" where
  "updated_of v = (case index_key v of Some u \<Rightarrow> u | None \<Rightarrow> 0)"


text \<open>
  The indicators, with their attributes, that the lines of a feed produce up to the first
  line that raises, and the exception of that line if there is one.
\<close>

fun parsed :: "hooks \<Rightarrow> config \<Rightarrow> string list \<Rightarrow> (string \<times> attrs) list \<times> error option" where
  "parsed hk cfg [] = ([], None)"
| "parsed hk cfg (raw # rest) =
     (case parse_line hk cfg raw of
        Inl e \<Rightarrow> ([], Some e)
      | Inr None \<Rightarrow> parsed hk cfg rest
      | Inr (Some ia) \<Rightarrow> (ia # fst (parsed hk cfg rest), snd (parsed hk cfg rest)))"

text \<open>
  Lines 79 to 99 for each of a list of indicators in turn, one after the other on the node
  the one before left; an exception ends it.
\<close>

fun reconcile_each ::
  "(nat \<Rightarrow> int) \<Rightarrow> hooks \<Rightarrow> config \<Rightarrow> (string \<times> attrs) list \<Rightarrow> node \<Rightarrow> error option \<times> node" where
  "reconcile_each clk hk cfg [] s = (None, s)"
| "reconcile_each clk hk cfg (ia # rest) s =
     (case reconcile clk hk cfg (fst ia) (snd ia) s of
        (Some e, s1) \<Rightarrow> (Some e, s1)
      | (None, s1) \<Rightarrow> reconcile_each clk hk cfg rest s1)"


subsection \<open>A feed of two indicators\<close>

text \<open>A clock that advances by 10 milliseconds with every reading.\<close>

definition tick_clock :: "nat \<Rightarrow> int" where
  "tick_clock n = int n * 10"

text \<open>
  The node after a first cycle, from an empty table, over the lines \<open>1.2.3.4 note\<close> and
  \<open>5.6.7.8 note\<close>, with the default configuration, the default hooks and the clock
  above: both indicators are in the table and both updates are emitted.
\<close>

definition after_first_cycle :: node where
  "after_first_cycle =
     \<lparr>glet = None,
      table =
        [(''1.2.3.4'', [''sources'' \<mapsto> PList [PStr ''feed''], ''_updated'' \<mapsto> PInt 10,
                        ''first_seen'' \<mapsto> PInt 20, ''last_seen'' \<mapsto> PInt 30]),
         (''5.6.7.8'', [''sources'' \<mapsto> PList [PStr ''feed''], ''_updated'' \<mapsto> PInt 40,
                        ''first_seen'' \<mapsto> PInt 50, ''last_seen'' \<mapsto> PInt 60])],
      active_requests = [], reinit_flag = True, ticks = 7,
      out =
        [EmitUpdate ''1.2.3.4''
           [''sources'' \<mapsto> PList [PStr ''feed''], ''_updated'' \<mapsto> PInt 10,
            ''first_seen'' \<mapsto> PInt 20, ''last_seen'' \<mapsto> PInt 30],
         EmitUpdate ''5.6.7.8''
           [''sources'' \<mapsto> PList [PStr ''feed''], ''_updated'' \<mapsto> PInt 40,
            ''first_seen'' \<mapsto> PInt 50, ''last_seen'' \<mapsto> PInt 60]]\<rparr>"


section \<open>Properties\<close>

subsection \<open>Auxiliary facts\<close>


subsubsection \<open>Random delays\<close>

lemma randint_bounds: "a \<le> b \<Longrightarrow> a \<le> randint a b seed \<and> randint a b seed \<le> b"
proof -
  assume ab: "a \<le> b"
  then have pos: "0 < nat (b - a + 1)" by simp
  have "seed mod nat (b - a + 1) < nat (b - a + 1)"
    using pos by (rule mod_less_divisor)
  then have "int (seed mod nat (b - a + 1)) < b - a + 1"
    using ab by linarith
  then show ?thesis
    unfolding randint_def by simp
qed

subsubsection \<open>What the steps leave alone\<close>

text \<open>
  No step of the polling, and no RPC method, changes the greenlet handle, the active
  requests or the reinit flag.
\<close>

lemma handles_act [simp]: "handles (act a s) = handles s"
  by (simp add: handles_def act_def)

lemma handles_utc [simp]: "handles (snd (utc_millisec clk s)) = handles s"
  by (simp add: handles_def utc_millisec_def)

lemma handles_table_update [simp]: "handles (s\<lparr>table := t\<rparr>) = handles s"
  by (simp add: handles_def)

lemma handles_stamp: "handles (snd (stamp clk cfg ev a s)) = handles s"
  by (simp add: stamp_def utc_millisec_def handles_def Let_def split: option.splits)

lemma handles_reconcile: "handles (snd (reconcile clk hk cfg i a s)) = handles s"
proof -
  obtain r s1 where st: "stamp clk cfg (table_get (table s) i) a s = (r, s1)"
    by (cases "stamp clk cfg (table_get (table s) i) a s")
  have "handles s1 = handles s"
    using handles_stamp[of clk cfg "table_get (table s) i" a s] st by simp
  then show ?thesis
    using st by (cases r) (simp_all add: reconcile_def emit_update_def Let_def)
qed

lemma handles_process_lines: "handles (snd (process_lines clk hk cfg ls s)) = handles s"
proof (induction ls arbitrary: s)
  case Nil
  show ?case by simp
next
  case (Cons raw rest)
  show ?case
  proof (cases "parse_line hk cfg raw")
    case (Inl e)
    then show ?thesis by simp
  next
    case (Inr p)
    show ?thesis
    proof (cases p)
      case None
      with Inr Cons show ?thesis by simp
    next
      case (Some ia)
      obtain i a where ia: "ia = (i, a)" by (cases ia)
      obtain r s1 where rc: "reconcile clk hk cfg i a s = (r, s1)"
        by (cases "reconcile clk hk cfg i a s")
      have h1: "handles s1 = handles s"
        using handles_reconcile[of clk hk cfg i a s] rc by simp
      show ?thesis
        using Inr Some ia rc h1 Cons[of s1] by (cases r) simp_all
    qed
  qed
qed

lemma handles_withdraw_all: "handles (withdraw_all cfg q s) = handles s"
  by (induction q arbitrary: s) (simp_all add: emit_withdraw_def)

lemma handles_polling_loop: "handles (snd (polling_loop clk hk cfg r s)) = handles s"
proof -
  let ?s0 = "snd (utc_millisec clk s)"
  have h0: "handles ?s0 = handles s" by simp
  show ?thesis
  proof (cases r)
    case (Inl e)
    then show ?thesis using h0 by (simp add: polling_loop_def split_beta)
  next
    case (Inr lf)
    obtain ls f where lf: "lf = (ls, f)" by (cases lf)
    obtain res s1 where pl: "process_lines clk hk cfg ls ?s0 = (res, s1)"
      by (cases "process_lines clk hk cfg ls ?s0")
    have h1: "handles s1 = handles s"
      using handles_process_lines[of clk hk cfg ls ?s0] pl h0 by simp
    show ?thesis
      using Inr lf pl h1
      by (cases res; cases f)
         (simp_all add: polling_loop_def split_beta withdraw_old_def handles_withdraw_all)
  qed
qed

lemma handles_overrun:
  assumes a: "overrun cfg d s = Some r"
  shows "handles (snd r) = handles s"
proof (rule overrun.raw_induct[where P = "\<lambda>cfg d s r. handles (snd r) = handles s", OF _ a])
  fix ov :: "config \<Rightarrow> int \<Rightarrow> node \<Rightarrow> (int \<times> node) option"
  fix c :: config and e :: int and t :: node and y :: "int \<times> node"
  assume IH: "\<And>c e t y. ov c e t = Some y \<Longrightarrow> handles (snd y) = handles t"
  assume eq: "(if e < 0 then ov c (e + interval c * 1000) (act LogWarning t)
               else Some (e, t)) = Some y"
  show "handles (snd y) = handles t"
  proof (cases "e < 0")
    case True
    with eq have "ov c (e + interval c * 1000) (act LogWarning t) = Some y" by simp
    from IH[OF this] show ?thesis by simp
  next
    case False
    with eq show ?thesis by auto
  qed
qed

lemma overrun_total:
  assumes pos: "0 < interval cfg"
  shows "\<exists>n. overrun cfg d s =
           Some (d + int n * (interval cfg * 1000), s\<lparr>out := out s @ replicate n LogWarning\<rparr>) \<and>
         0 \<le> d + int n * (interval cfg * 1000) \<and>
         (0 < n \<longrightarrow> d + int n * (interval cfg * 1000) < interval cfg * 1000) \<and>
         (0 \<le> d \<longrightarrow> n = 0)"
proof (induction "nat (- d)" arbitrary: d s rule: less_induct)
  case less
  show ?case
  proof (cases "d < 0")
    case False
    then have "overrun cfg d s = Some (d, s)"
      by (simp add: overrun.simps)
    then show ?thesis using False by (intro exI[of _ 0]) simp
  next
    case True
    let ?d1 = "d + interval cfg * 1000"
    have smaller: "nat (- ?d1) < nat (- d)" using True pos by linarith
    obtain n where n:
      "overrun cfg ?d1 (act LogWarning s) =
         Some (?d1 + int n * (interval cfg * 1000),
               (act LogWarning s)\<lparr>out := out (act LogWarning s) @ replicate n LogWarning\<rparr>)"
      "0 \<le> ?d1 + int n * (interval cfg * 1000)"
      "0 < n \<longrightarrow> ?d1 + int n * (interval cfg * 1000) < interval cfg * 1000"
      "0 \<le> ?d1 \<longrightarrow> n = 0"
      using less[OF smaller, of "act LogWarning s"] by blast
    have step: "overrun cfg d s = overrun cfg ?d1 (act LogWarning s)"
      using True by (subst overrun.simps) simp
    have st: "(act LogWarning s)\<lparr>out := out (act LogWarning s) @ replicate n LogWarning\<rparr> =
              s\<lparr>out := out s @ replicate (Suc n) LogWarning\<rparr>"
      by (simp add: act_def)
    have val: "?d1 + int n * (interval cfg * 1000) = d + int (Suc n) * (interval cfg * 1000)"
      by (simp add: algebra_simps)
    have bound: "d + int (Suc n) * (interval cfg * 1000) < interval cfg * 1000"
    proof (cases "n = 0")
      case True
      then show ?thesis using \<open>d < 0\<close> by simp
    next
      case False
      then show ?thesis using n(3) val by simp
    qed
    show ?thesis
      apply (rule exI[of _ "Suc n"])
      using step n(1) n(2) st val bound True by simp
  qed
qed


lemma handles_schedule:
  "schedule clk cfg lastrun s = Some s' \<Longrightarrow> handles s' = handles s"
proof -
  assume a: "schedule clk cfg lastrun s = Some s'"
  let ?s1 = "snd (utc_millisec clk s)"
  let ?d = "(lastrun + interval cfg * 1000) - fst (utc_millisec clk s)"
  from a obtain d2 s2 where ov: "overrun cfg ?d ?s1 = Some (d2, s2)"
    and s': "s' = act (SleepMillis d2) s2"
    by (auto simp: schedule_def split_beta Let_def split: option.splits)
  from handles_overrun[OF ov] have "handles s2 = handles s" by simp
  with s' show ?thesis by simp
qed

lemma handles_run_iteration:
  assumes a: "run_iteration clk hk cfg r seed tryn s = Some (c, s')"
  shows "handles s' = handles s"
proof -
  let ?s0 = "snd (utc_millisec clk s)"
  let ?lastrun = "fst (utc_millisec clk s)"
  obtain res s1 where pl: "polling_loop clk hk cfg r ?s0 = (res, s1)"
    by (cases "polling_loop clk hk cfg r ?s0")
  have h1: "handles s1 = handles s"
    using handles_polling_loop[of clk hk cfg r ?s0] pl by simp
  show ?thesis
  proof (cases res)
    case None
    with a pl obtain s2 where "schedule clk cfg ?lastrun s1 = Some s2" and "s' = s2"
      by (auto simp: run_iteration_def split_beta)
    with handles_schedule[of clk cfg ?lastrun s1 s2] h1 show ?thesis by simp
  next
    case (Some e)
    show ?thesis
    proof (cases "e = GreenletExit")
      case True
      with a pl Some have "s' = s1" by (simp add: run_iteration_def split_beta)
      with h1 show ?thesis by simp
    next
      case False
      show ?thesis
      proof (cases "tryn + 1 < num_retries cfg")
        case True
        with a pl Some False
        have "s' = act (SleepSeconds (randint 1 5 seed)) (act LogException s1)"
          by (simp add: run_iteration_def split_beta Let_def)
        with h1 show ?thesis by simp
      next
        case nr: False
        with a pl Some False
        obtain s2 where "schedule clk cfg ?lastrun (act LogException s1) = Some s2" and "s' = s2"
          by (auto simp: run_iteration_def split_beta Let_def)
        with handles_schedule[of clk cfg ?lastrun "act LogException s1" s2] h1
        show ?thesis by simp
      qed
    qed
  qed
qed

lemma handles_update_all: "handles (update_all q s) = handles s"
  by (induction q arbitrary: s) (simp_all add: emit_update_def)

lemma handles_rpc_all: "handles (rpc_all source q s) = handles s"
  by (induction q arbitrary: s) (simp_all add: do_rpc_def)

lemma handles_run_entry: "handles (run_entry s) = handles s"
  by (simp add: run_entry_def handles_update_all)

lemma handles_get: "snd (get source i s) = s"
  by (cases i) (simp_all add: get_def)

lemma handles_get_all: "handles (snd (get_all source s)) = handles s"
  by (simp add: get_all_def send_indicators_def handles_rpc_all)

lemma handles_get_range: "handles (snd (get_range source index f t s)) = handles s"
  by (simp add: get_range_def send_indicators_def handles_rpc_all)

subsubsection \<open>Sequences of calls\<close>

lemma apply_call_glet:
  assumes "apply_call clk hk cfg c s = Some s'" and "glet s \<noteq> None"
  shows "glet s' \<noteq> None"
proof (cases c)
  case (Start seed)
  with assms show ?thesis by (auto simp: start_def split: option.splits)
next
  case Stop
  with assms show ?thesis by (auto simp: stop_def act_def Let_def split: option.splits)
next
  case (Get source i)
  with assms show ?thesis by (simp add: handles_get)
next
  case (GetAll source)
  with assms handles_get_all[of source s] show ?thesis by (auto simp: handles_def)
next
  case (GetRange source index f t)
  with assms handles_get_range[of source index f t s] show ?thesis by (auto simp: handles_def)
next
  case (Length source)
  with assms show ?thesis by (simp add: length_ft_def)
next
  case RunEntry
  with assms handles_run_entry[of s] show ?thesis by (auto simp: handles_def)
next
  case (RunIteration r seed tryn)
  with assms obtain ctl where "run_iteration clk hk cfg r seed tryn s = Some (ctl, s')"
    by auto
  from handles_run_iteration[OF this] assms(2) show ?thesis by (simp add: handles_def)
next
  case (Poll r)
  with assms handles_polling_loop[of clk hk cfg r s] show ?thesis by (auto simp: handles_def)
qed

lemma run_calls_glet:
  "run_calls clk hk cfg cs s = Some s' \<Longrightarrow> glet s \<noteq> None \<Longrightarrow> glet s' \<noteq> None"
proof (induction cs arbitrary: s)
  case Nil
  then show ?case by simp
next
  case (Cons c cs)
  from Cons.prems(1) obtain s1 where s1: "apply_call clk hk cfg c s = Some s1"
    and rest: "run_calls clk hk cfg cs s1 = Some s'"
    by (auto split: option.splits)
  from apply_call_glet[OF s1 Cons.prems(2)] Cons.IH[OF rest] show ?case by simp
qed

lemma apply_call_requests:
  assumes "apply_call clk hk cfg c s = Some s'" and "active_requests s = []"
  shows "active_requests s' = []"
proof (cases c)
  case (Start seed)
  with assms show ?thesis by (auto simp: start_def split: option.splits)
next
  case Stop
  with assms show ?thesis by (auto simp: stop_def act_def Let_def split: option.splits)
next
  case (Get source i)
  with assms show ?thesis by (simp add: handles_get)
next
  case (GetAll source)
  with assms handles_get_all[of source s] show ?thesis by (auto simp: handles_def)
next
  case (GetRange source index f t)
  with assms handles_get_range[of source index f t s] show ?thesis by (auto simp: handles_def)
next
  case (Length source)
  with assms show ?thesis by (simp add: length_ft_def)
next
  case RunEntry
  with assms handles_run_entry[of s] show ?thesis by (auto simp: handles_def)
next
  case (RunIteration r seed tryn)
  with assms obtain ctl where "run_iteration clk hk cfg r seed tryn s = Some (ctl, s')"
    by auto
  from handles_run_iteration[OF this] assms(2) show ?thesis by (simp add: handles_def)
next
  case (Poll r)
  with assms handles_polling_loop[of clk hk cfg r s] show ?thesis by (auto simp: handles_def)
qed

lemma run_calls_requests:
  "run_calls clk hk cfg cs s = Some s' \<Longrightarrow> active_requests s = [] \<Longrightarrow> active_requests s' = []"
proof (induction cs arbitrary: s)
  case Nil
  then show ?case by simp
next
  case (Cons c cs)
  from Cons.prems(1) obtain s1 where s1: "apply_call clk hk cfg c s = Some s1"
    and rest: "run_calls clk hk cfg cs s1 = Some s'"
    by (auto split: option.splits)
  from apply_call_requests[OF s1 Cons.prems(2)] Cons.IH[OF rest] show ?case by simp
qed

subsubsection \<open>Scheduling\<close>

lemma schedule_eval:
  "0 \<le> lastrun + interval cfg * 1000 - clk (ticks s) \<Longrightarrow>
   schedule clk cfg lastrun s =
     Some (act (SleepMillis (lastrun + interval cfg * 1000 - clk (ticks s)))
            (snd (utc_millisec clk s)))"
  by (simp add: schedule_def utc_millisec_def overrun.simps)

subsubsection \<open>The table and its invariant\<close>

lemma table_get_put: "table_get (table_put t k v) k' = (if k' = k then Some v else table_get t k')"
  by (simp add: table_get_def table_put_def update_conv')

lemma set_update_subset: "set (AList.update k v t) \<subseteq> insert (k, v) (set t)"
  by (induction t) auto

lemma table_ok_Nil: "table_ok []"
  by (simp add: table_ok_def)

lemma table_ok_put:
  assumes "table_ok t" "v ''first_seen'' \<noteq> None" "index_key v = Some u" "0 \<le> u"
  shows "table_ok (table_put t k v)"
proof -
  have d: "distinct (map fst (AList.update k v t))"
    using assms(1) by (simp add: table_ok_def distinct_update)
  have "\<forall>kv \<in> set (AList.update k v t).
          snd kv ''first_seen'' \<noteq> None \<and>
          (case index_key (snd kv) of Some u \<Rightarrow> 0 \<le> u | None \<Rightarrow> False)"
  proof
    fix kv assume "kv \<in> set (AList.update k v t)"
    with set_update_subset[of k v t] have "kv = (k, v) \<or> kv \<in> set t" by auto
    then show "snd kv ''first_seen'' \<noteq> None \<and>
          (case index_key (snd kv) of Some u \<Rightarrow> 0 \<le> u | None \<Rightarrow> False)"
      using assms by (auto simp: table_ok_def list_all_iff)
  qed
  with d show ?thesis by (simp add: table_ok_def table_put_def list_all_iff)
qed

lemma table_ok_delete: "table_ok t \<Longrightarrow> table_ok (table_delete t k)"
proof -
  assume ok: "table_ok t"
  then have "distinct (map fst (AList.delete k t))"
    by (simp add: table_ok_def distinct_delete)
  moreover have "set (AList.delete k t) \<subseteq> set t"
    by (auto simp: AList.delete_eq)
  ultimately show ?thesis
    using ok by (auto simp: table_ok_def table_delete_def list_all_iff)
qed

lemma table_ok_get:
  assumes "table_ok t" "table_get t k = Some e"
  shows "e ''first_seen'' \<noteq> None \<and> (\<exists>u. index_key e = Some u \<and> 0 \<le> u)"
proof -
  from assms(2) have "(k, e) \<in> set t" by (simp add: table_get_def map_of_SomeD)
  with assms(1) show ?thesis
    by (auto simp: table_ok_def list_all_iff split: option.splits)
qed

subsubsection \<open>Stamping and reconciling one indicator\<close>

lemma stamp_new:
  "stamp clk cfg None a s =
     (Inr (a(''sources'' \<mapsto> PList [PStr (source_name cfg)],
             ''_updated'' \<mapsto> PInt (clk (ticks s)),
             ''first_seen'' \<mapsto> PInt (clk (ticks s + 1)),
             ''last_seen'' \<mapsto> PInt (clk (ticks s + 2)))),
      s\<lparr>ticks := ticks s + 3\<rparr>)"
  by (simp add: stamp_def utc_millisec_def Let_def)

lemma stamp_known:
  "e ''first_seen'' = Some fs \<Longrightarrow>
   stamp clk cfg (Some e) a s =
     (Inr (a(''sources'' \<mapsto> PList [PStr (source_name cfg)],
             ''_updated'' \<mapsto> PInt (clk (ticks s)),
             ''first_seen'' \<mapsto> fs,
             ''last_seen'' \<mapsto> PInt (clk (ticks s + 1)))),
      s\<lparr>ticks := ticks s + 2\<rparr>)"
  by (simp add: stamp_def utc_millisec_def Let_def)

lemma stamp_unknown:
  "e ''first_seen'' = None \<Longrightarrow>
   stamp clk cfg (Some e) a s = (Inl (KeyError ''first_seen''), s\<lparr>ticks := ticks s + 1\<rparr>)"
  by (simp add: stamp_def utc_millisec_def Let_def)

lemma stamp_Inr:
  assumes "stamp clk cfg ev a s = (Inr a', s1)"
  shows "a' ''_updated'' = Some (PInt (clk (ticks s))) \<and> a' ''first_seen'' \<noteq> None \<and>
         a' ''sources'' = Some (PList [PStr (source_name cfg)]) \<and>
         index_key a' = Some (clk (ticks s)) \<and> ticks s < ticks s1 \<and>
         table s1 = table s \<and> out s1 = out s \<and>
         (\<exists>n. a' ''last_seen'' = Some (PInt (clk n)) \<and> ticks s < n \<and> n < ticks s1)"
proof (cases ev)
  case None
  with assms stamp_new[of clk cfg a s] show ?thesis
    by (auto simp: index_key_def intro: exI[of _ "ticks s + 2"])
next
  case (Some e)
  show ?thesis
  proof (cases "e ''first_seen''")
    case None
    with Some assms stamp_unknown[of e clk cfg a s] show ?thesis by simp
  next
    case (Some fs)
    with \<open>ev = Some e\<close> assms stamp_known[of e fs clk cfg a s] show ?thesis
      by (auto simp: index_key_def intro: exI[of _ "ticks s + 1"])
  qed
qed


lemma reconcile_Inr:
  assumes "stamp clk cfg (table_get (table s) i) a s = (Inr a', s1)"
  shows "reconcile clk hk cfg i a s =
           (None,
            if send_update hk cfg (table_get (table s) i) a'
            then emit_update i a' (s1\<lparr>table := table_put (table s1) i a'\<rparr>)
            else s1\<lparr>table := table_put (table s1) i a'\<rparr>)"
  using assms by (simp add: reconcile_def Let_def)

subsubsection \<open>The query on the index\<close>

lemma indexed_Cons:
  "indexed (kv # t) =
     (case index_key (snd kv) of None \<Rightarrow> indexed t | Some u \<Rightarrow> (u, kv) # indexed t)"
  by (cases kv) (simp add: indexed_def List.map_filter_simps split: option.splits)

lemma indexed_Nil: "indexed [] = []"
  by (simp add: indexed_def List.map_filter_simps)

lemma set_indexed: "set (indexed t) = {(u, kv). kv \<in> set t \<and> index_key (snd kv) = Some u}"
  by (induction t) (auto simp: indexed_Cons indexed_Nil split: option.splits)

lemma map_snd_filter_indexed:
  "map snd (filter (\<lambda>(u, kv). P u) (indexed t)) =
     filter (\<lambda>kv. case index_key (snd kv) of Some u \<Rightarrow> P u | None \<Rightarrow> False) t"
  by (induction t) (auto simp: indexed_Cons indexed_Nil split: option.splits)

lemma set_table_query:
  "set (table_query t f to) =
     {kv \<in> set t. \<exists>u. index_key (snd kv) = Some u \<and> in_range f to u}"
proof -
  have "set (table_query t f to) = set (map snd (filter (\<lambda>(u, kv). in_range f to u) (indexed t)))"
    by (simp add: table_query_def)
  also have "\<dots> = set (filter (\<lambda>kv. case index_key (snd kv) of Some u \<Rightarrow> in_range f to u
                                   | None \<Rightarrow> False) t)"
    by (simp only: map_snd_filter_indexed)
  also have "\<dots> = {kv \<in> set t. \<exists>u. index_key (snd kv) = Some u \<and> in_range f to u}"
    by (auto split: option.splits)
  finally show ?thesis .
qed

lemma sorted_table_query: "sorted (map (\<lambda>kv. updated_of (snd kv)) (table_query t f to))"
proof -
  let ?xs = "filter (\<lambda>(u, kv). in_range f to u) (indexed t)"
  have key: "\<And>x. x \<in> set (sort_key fst ?xs) \<Longrightarrow> updated_of (snd (snd x)) = fst x"
    by (auto simp: set_indexed updated_of_def)
  have "map (\<lambda>kv. updated_of (snd kv)) (table_query t f to) =
        map (\<lambda>x. updated_of (snd (snd x))) (sort_key fst ?xs)"
    by (simp add: table_query_def comp_def)
  also have "\<dots> = map fst (sort_key fst ?xs)"
    using key by (intro map_cong) auto
  finally show ?thesis by simp
qed

lemma distinct_table_query:
  assumes "distinct (map fst t)"
  shows "distinct (map fst (table_query t f to))"
proof -
  let ?xs = "filter (\<lambda>(u, kv). in_range f to u) (indexed t)"
  let ?g = "\<lambda>x. fst (snd x)"
  have "distinct (map fst (map snd ?xs))"
    unfolding map_snd_filter_indexed using assms by (rule distinct_map_filter)
  then have d: "distinct (map ?g ?xs)" by (simp add: comp_def)
  have "distinct (map ?g (sort_key fst ?xs))"
    using d unfolding distinct_map by simp
  then show ?thesis by (simp add: table_query_def comp_def)
qed

subsubsection \<open>The withdrawal of the entries of a query\<close>

lemma withdraw_all_table:
  "table (withdraw_all cfg q s) = filter (\<lambda>kv. fst kv \<notin> fst ` set q) (table s)"
proof (induction q arbitrary: s)
  case Nil
  show ?case by simp
next
  case (Cons iv q)
  have "table (withdraw_all cfg (iv # q) s) =
        filter (\<lambda>kv. fst kv \<notin> fst ` set q) (AList.delete (fst iv) (table s))"
    by (simp add: Cons emit_withdraw_def act_def table_delete_def)
  also have "\<dots> = filter (\<lambda>kv. fst kv \<notin> fst ` set (iv # q)) (table s)"
    by (auto simp: AList.delete_eq intro: filter_cong)
  finally show ?case .
qed

lemma withdraw_all_out:
  "out (withdraw_all cfg q s) =
     out s @ map (\<lambda>kv. EmitWithdraw (fst kv) [''sources'' \<mapsto> PList [PStr (source_name cfg)]]) q"
  by (induction q arbitrary: s) (simp_all add: emit_withdraw_def act_def)

lemma stale_in_range:
  "0 \<le> u \<Longrightarrow> index_key v = Some u \<Longrightarrow> stale T v = in_range (Some 0) (Some (T - 1)) u"
  by (simp add: stale_def in_range_def)

lemma withdraw_old_table:
  assumes ok: "table_ok (table s)"
  shows "table (withdraw_old cfg T s) = filter (\<lambda>kv. \<not> stale T (snd kv)) (table s)"
proof -
  let ?q = "table_query (table s) (Some 0) (Some (T - 1))"
  have d: "distinct (map fst (table s))" using ok by (simp add: table_ok_def)
  have "\<And>kv. kv \<in> set (table s) \<Longrightarrow> (fst kv \<notin> fst ` set ?q) = (\<not> stale T (snd kv))"
  proof -
    fix kv assume kv: "kv \<in> set (table s)"
    with table_ok_get[OF ok, of "fst kv" "snd kv"] d
    obtain u where u: "index_key (snd kv) = Some u" "0 \<le> u"
      by (auto simp: table_get_def)
    have "fst kv \<in> fst ` set ?q \<longleftrightarrow> kv \<in> set ?q"
    proof
      assume "fst kv \<in> fst ` set ?q"
      then obtain kv' where kv': "kv' \<in> set ?q" "fst kv' = fst kv" by auto
      then have "kv' \<in> set (table s)" by (simp add: set_table_query)
      with kv kv'(2) d have "kv' = kv"
        by (metis eq_key_imp_eq_value prod.collapse)
      with kv' show "kv \<in> set ?q" by simp
    qed auto
    also have "\<dots> \<longleftrightarrow> stale T (snd kv)"
      using kv u by (simp add: set_table_query stale_in_range[OF u(2) u(1)])
    finally show "(fst kv \<notin> fst ` set ?q) = (\<not> stale T (snd kv))" by simp
  qed
  then show ?thesis
    by (simp add: withdraw_old_def withdraw_all_table cong: filter_cong)
qed

lemma set_stale_query:
  assumes ok: "table_ok t"
  shows "set (table_query t (Some 0) (Some (T - 1))) = {kv \<in> set t. stale T (snd kv)}"
proof -
  have d: "distinct (map fst t)" using ok by (simp add: table_ok_def)
  have "\<And>kv. kv \<in> set t \<Longrightarrow>
          (\<exists>u. index_key (snd kv) = Some u \<and> in_range (Some 0) (Some (T - 1)) u) = stale T (snd kv)"
  proof -
    fix kv assume kv: "kv \<in> set t"
    with table_ok_get[OF ok, of "fst kv" "snd kv"] d
    obtain u where u: "index_key (snd kv) = Some u" "0 \<le> u"
      by (auto simp: table_get_def)
    then show "(\<exists>u. index_key (snd kv) = Some u \<and> in_range (Some 0) (Some (T - 1)) u) =
               stale T (snd kv)"
      by (simp add: stale_in_range[OF u(2) u(1)])
  qed
  then show ?thesis by (auto simp: set_table_query)
qed

subsubsection \<open>The invariant along a cycle\<close>

lemma stamp_frame:
  "table (snd (stamp clk cfg ev a s)) = table s \<and> out (snd (stamp clk cfg ev a s)) = out s \<and>
   ticks s < ticks (snd (stamp clk cfg ev a s))"
  by (simp add: stamp_def utc_millisec_def Let_def split: option.splits)

lemma reconcile_None:
  assumes "reconcile clk hk cfg i a s = (None, s')"
  shows "\<exists>a'. table s' = table_put (table s) i a' \<and> index_key a' = Some (clk (ticks s)) \<and>
              a' ''first_seen'' \<noteq> None \<and> ticks s < ticks s'"
proof -
  obtain r s1 where st: "stamp clk cfg (table_get (table s) i) a s = (r, s1)"
    by (cases "stamp clk cfg (table_get (table s) i) a s")
  show ?thesis
  proof (cases r)
    case (Inl e)
    with st assms show ?thesis by (simp add: reconcile_def)
  next
    case (Inr a')
    with st have st': "stamp clk cfg (table_get (table s) i) a s = (Inr a', s1)" by simp
    from stamp_Inr[OF st'] have f: "index_key a' = Some (clk (ticks s))"
      "a' ''first_seen'' \<noteq> None" "ticks s < ticks s1" "table s1 = table s"
      by simp_all
    from reconcile_Inr[OF st', of hk] assms
    have "table s' = table_put (table s1) i a' \<and> ticks s' = ticks s1"
      by (auto simp: emit_update_def act_def split: if_splits)
    with f show ?thesis by auto
  qed
qed

lemma reconcile_Some:
  assumes "reconcile clk hk cfg i a s = (Some e, s')"
  shows "table s' = table s \<and> ticks s < ticks s'"
proof -
  obtain r s1 where st: "stamp clk cfg (table_get (table s) i) a s = (r, s1)"
    by (cases "stamp clk cfg (table_get (table s) i) a s")
  from stamp_frame[of clk cfg "table_get (table s) i" a s] st
  have f: "table s1 = table s" "ticks s < ticks s1" by simp_all
  show ?thesis
  proof (cases r)
    case (Inl e')
    with st assms f show ?thesis by (simp add: reconcile_def)
  next
    case (Inr a')
    with st assms show ?thesis by (simp add: reconcile_def Let_def)
  qed
qed

lemma table_ok_reconcile:
  assumes ok: "table_ok (table s)" and nonneg: "\<forall>n. 0 \<le> clk n"
  shows "table_ok (table (snd (reconcile clk hk cfg i a s)))"
proof -
  obtain r s' where rc: "reconcile clk hk cfg i a s = (r, s')"
    by (cases "reconcile clk hk cfg i a s")
  show ?thesis
  proof (cases r)
    case None
    with rc reconcile_None[of clk hk cfg i a s s'] obtain a' where
      a': "table s' = table_put (table s) i a'" "index_key a' = Some (clk (ticks s))"
          "a' ''first_seen'' \<noteq> None"
      by auto
    from table_ok_put[OF ok a'(3) a'(2)] nonneg a'(1) rc show ?thesis by simp
  next
    case (Some e)
    with rc reconcile_Some[of clk hk cfg i a s e s'] ok show ?thesis by simp
  qed
qed

lemma table_ok_process_lines:
  assumes nonneg: "\<forall>n. 0 \<le> clk n"
  shows "table_ok (table s) \<Longrightarrow> table_ok (table (snd (process_lines clk hk cfg ls s)))"
proof (induction ls arbitrary: s)
  case Nil
  then show ?case by simp
next
  case (Cons raw rest)
  show ?case
  proof (cases "parse_line hk cfg raw")
    case (Inl e)
    with Cons.prems show ?thesis by simp
  next
    case (Inr p)
    show ?thesis
    proof (cases p)
      case None
      with Inr Cons show ?thesis by simp
    next
      case (Some ia)
      obtain i a where ia: "ia = (i, a)" by (cases ia)
      obtain r s1 where rc: "reconcile clk hk cfg i a s = (r, s1)"
        by (cases "reconcile clk hk cfg i a s")
      have ok1: "table_ok (table s1)"
        using table_ok_reconcile[OF Cons.prems nonneg, of hk cfg i a] rc by simp
      show ?thesis
        using Inr Some ia rc ok1 Cons.IH[OF ok1] by (cases r) simp_all
    qed
  qed
qed

lemma table_ok_withdraw_all: "table_ok (table s) \<Longrightarrow> table_ok (table (withdraw_all cfg q s))"
  by (induction q arbitrary: s) (simp_all add: emit_withdraw_def act_def table_ok_delete)

lemma table_ok_polling_loop:
  assumes ok: "table_ok (table s)" and nonneg: "\<forall>n. 0 \<le> clk n"
  shows "table_ok (table (snd (polling_loop clk hk cfg r s)))"
proof -
  let ?s0 = "snd (utc_millisec clk s)"
  have ok0: "table_ok (table ?s0)" using ok by (simp add: utc_millisec_def)
  show ?thesis
  proof (cases r)
    case (Inl e)
    then show ?thesis using ok0 by (simp add: polling_loop_def split_beta)
  next
    case (Inr lf)
    obtain ls f where lf: "lf = (ls, f)" by (cases lf)
    obtain res s1 where pl: "process_lines clk hk cfg ls ?s0 = (res, s1)"
      by (cases "process_lines clk hk cfg ls ?s0")
    have ok1: "table_ok (table s1)"
      using table_ok_process_lines[OF nonneg ok0, of hk cfg ls] pl by simp
    show ?thesis
      using Inr lf pl ok1
      by (cases res; cases f)
         (simp_all add: polling_loop_def split_beta withdraw_old_def table_ok_withdraw_all)
  qed
qed

subsubsection \<open>Indicators refreshed in a cycle\<close>



subsubsection \<open>A cycle as a sequence of indicators\<close>


lemma table_wf_get:
  assumes "table_wf t" "table_get t k = Some e"
  shows "e ''first_seen'' \<noteq> None"
proof -
  from assms(2) have "(k, e) \<in> set t" by (simp add: table_get_def map_of_SomeD)
  with assms(1) show ?thesis by (auto simp: table_wf_def list_all_iff)
qed

lemma table_wf_put:
  assumes "table_wf t" "v ''first_seen'' \<noteq> None"
  shows "table_wf (table_put t k v)"
proof -
  have d: "distinct (map fst (AList.update k v t))"
    using assms(1) by (simp add: table_wf_def distinct_update)
  have "\<forall>kv \<in> set (AList.update k v t). snd kv ''first_seen'' \<noteq> None"
  proof
    fix kv assume "kv \<in> set (AList.update k v t)"
    with set_update_subset[of k v t] have "kv = (k, v) \<or> kv \<in> set t" by auto
    then show "snd kv ''first_seen'' \<noteq> None"
      using assms by (auto simp: table_wf_def list_all_iff)
  qed
  with d show ?thesis by (simp add: table_wf_def table_put_def list_all_iff)
qed

lemma stamp_wf:
  assumes "table_wf (table s)"
  shows "\<exists>a'. stamp clk cfg (table_get (table s) i) a s =
           (Inr a', s\<lparr>ticks := ticks s + (if table_get (table s) i = None then 3 else 2)\<rparr>)"
proof (cases "table_get (table s) i")
  case None
  then show ?thesis using stamp_new[of clk cfg a s] by simp
next
  case (Some e)
  with table_wf_get[OF assms Some] obtain fs where fs: "e ''first_seen'' = Some fs" by auto
  from stamp_known[of e fs clk cfg a s] fs Some show ?thesis by simp
qed

lemma reconcile_wf:
  assumes wf: "table_wf (table s)"
  shows "\<exists>a' s1. reconcile clk hk cfg i a s = (None, s1) \<and>
           table s1 = table_put (table s) i a' \<and> table_wf (table s1) \<and>
           ticks s + 1 < ticks s1 \<and>
           a' ''_updated'' = Some (PInt (clk (ticks s))) \<and>
           index_key a' = Some (clk (ticks s)) \<and>
           (\<exists>n. ticks s < n \<and> n < ticks s1 \<and> a' ''last_seen'' = Some (PInt (clk n))) \<and>
           (case table_get (table s) i of
              Some e \<Rightarrow> a' ''first_seen'' = e ''first_seen''
            | None \<Rightarrow> \<exists>n. ticks s < n \<and> n < ticks s1 \<and>
                          a' ''first_seen'' = Some (PInt (clk n)))"
proof (cases "table_get (table s) i")
  case None
  let ?a' = "a(''sources'' \<mapsto> PList [PStr (source_name cfg)],
             ''_updated'' \<mapsto> PInt (clk (ticks s)),
             ''first_seen'' \<mapsto> PInt (clk (ticks s + 1)),
             ''last_seen'' \<mapsto> PInt (clk (ticks s + 2)))"
  have st: "stamp clk cfg (table_get (table s) i) a s = (Inr ?a', s\<lparr>ticks := ticks s + 3\<rparr>)"
    using None stamp_new[of clk cfg a s] by simp
  obtain s1 where rc: "reconcile clk hk cfg i a s = (None, s1)"
    and t1: "table s1 = table_put (table s) i ?a'" and k1: "ticks s1 = ticks s + 3"
    using reconcile_Inr[OF st, of hk] by (auto simp: emit_update_def act_def)
  have wf1: "table_wf (table s1)" using t1 table_wf_put[OF wf, of ?a' i] by simp
  have ls: "\<exists>n. ticks s < n \<and> n < ticks s1 \<and> ?a' ''last_seen'' = Some (PInt (clk n))"
    using k1 by (intro exI[of _ "ticks s + 2"]) simp
  have fs: "\<exists>n. ticks s < n \<and> n < ticks s1 \<and> ?a' ''first_seen'' = Some (PInt (clk n))"
    using k1 by (intro exI[of _ "ticks s + 1"]) simp
  show ?thesis
    apply (rule exI[of _ ?a'])
    apply (rule exI[of _ s1])
    using rc t1 wf1 k1 ls fs None by (simp add: index_key_def)
next
  case (Some e)
  from table_wf_get[OF wf Some] obtain fs where fs: "e ''first_seen'' = Some fs" by auto
  let ?a' = "a(''sources'' \<mapsto> PList [PStr (source_name cfg)],
             ''_updated'' \<mapsto> PInt (clk (ticks s)),
             ''first_seen'' \<mapsto> fs,
             ''last_seen'' \<mapsto> PInt (clk (ticks s + 1)))"
  have st: "stamp clk cfg (table_get (table s) i) a s = (Inr ?a', s\<lparr>ticks := ticks s + 2\<rparr>)"
    using Some stamp_known[of e fs clk cfg a s] fs by simp
  obtain s1 where rc: "reconcile clk hk cfg i a s = (None, s1)"
    and t1: "table s1 = table_put (table s) i ?a'" and k1: "ticks s1 = ticks s + 2"
    using reconcile_Inr[OF st, of hk] by (auto simp: emit_update_def act_def)
  have wf1: "table_wf (table s1)" using t1 table_wf_put[OF wf, of ?a' i] by simp
  have ls: "\<exists>n. ticks s < n \<and> n < ticks s1 \<and> ?a' ''last_seen'' = Some (PInt (clk n))"
    using k1 by (intro exI[of _ "ticks s + 1"]) simp
  show ?thesis
    apply (rule exI[of _ ?a'])
    apply (rule exI[of _ s1])
    using rc t1 wf1 k1 ls Some fs by (simp add: index_key_def)
qed

lemma reconcile_each_wf:
  "table_wf (table s) \<Longrightarrow>
   fst (reconcile_each clk hk cfg ps s) = None \<and>
   table_wf (table (snd (reconcile_each clk hk cfg ps s))) \<and>
   (\<forall>k. table_get (table s) k \<noteq> None \<or> k \<in> fst ` set ps \<longrightarrow>
        table_get (table (snd (reconcile_each clk hk cfg ps s))) k \<noteq> None)"
proof (induction ps arbitrary: s)
  case Nil
  then show ?case by simp
next
  case (Cons ia ps)
  from reconcile_wf[OF Cons.prems, of clk hk cfg "fst ia" "snd ia"] obtain a' s1 where
    rc: "reconcile clk hk cfg (fst ia) (snd ia) s = (None, s1)" and
    t1: "table s1 = table_put (table s) (fst ia) a'" and wf1: "table_wf (table s1)"
    by blast
  have keys: "\<forall>k. table_get (table s) k \<noteq> None \<or> k = fst ia \<longrightarrow> table_get (table s1) k \<noteq> None"
    using t1 by (simp add: table_get_put)
  from Cons.IH[OF wf1] rc keys show ?case by auto
qed

lemma process_lines_parsed:
  "process_lines clk hk cfg ls s =
     (case reconcile_each clk hk cfg (fst (parsed hk cfg ls)) s of
        (Some e, s1) \<Rightarrow> (Some e, s1)
      | (None, s1) \<Rightarrow> (snd (parsed hk cfg ls), s1))"
proof (induction ls arbitrary: s)
  case Nil
  show ?case by simp
next
  case (Cons raw rest)
  show ?case
  proof (cases "parse_line hk cfg raw")
    case (Inl e)
    then show ?thesis by simp
  next
    case (Inr p)
    show ?thesis
    proof (cases p)
      case None
      with Inr have ps: "parsed hk cfg (raw # rest) = parsed hk cfg rest" by simp
      obtain r s1 where re: "reconcile_each clk hk cfg (fst (parsed hk cfg rest)) s = (r, s1)"
        by (cases "reconcile_each clk hk cfg (fst (parsed hk cfg rest)) s")
      show ?thesis
        using Inr None Cons[of s] ps re by (cases r) (simp_all del: parsed.simps)
    next
      case (Some ia)
      obtain r s1 where rc: "reconcile clk hk cfg (fst ia) (snd ia) s = (r, s1)"
        by (cases "reconcile clk hk cfg (fst ia) (snd ia) s")
      have ps: "fst (parsed hk cfg (raw # rest)) = ia # fst (parsed hk cfg rest)"
        "snd (parsed hk cfg (raw # rest)) = snd (parsed hk cfg rest)"
        using Inr Some by simp_all
      obtain r' s2 where re: "reconcile_each clk hk cfg (fst (parsed hk cfg rest)) s1 = (r', s2)"
        by (cases "reconcile_each clk hk cfg (fst (parsed hk cfg rest)) s1")
      show ?thesis
        using Inr Some rc Cons[of s1] ps re
        by (cases r; cases r') (simp_all add: split_beta del: parsed.simps)
    qed
  qed
qed


lemma process_lines_wf:
  assumes wf: "table_wf (table s)"
  shows "process_lines clk hk cfg ls s =
           (snd (parsed hk cfg ls), snd (reconcile_each clk hk cfg (fst (parsed hk cfg ls)) s))"
proof -
  obtain r s1 where re: "reconcile_each clk hk cfg (fst (parsed hk cfg ls)) s = (r, s1)"
    by (cases "reconcile_each clk hk cfg (fst (parsed hk cfg ls)) s")
  with reconcile_each_wf[OF wf, of clk hk cfg "fst (parsed hk cfg ls)"] have "r = None" by simp
  with re show ?thesis by (simp add: process_lines_parsed[of clk hk cfg ls s])
qed





subsubsection \<open>The feed of two indicators\<close>

lemma parse_note:
  "parse_line HttpFT_hooks (default_config ''feed'') ''1.2.3.4 note'' =
     Inr (Some (''1.2.3.4'', Map.empty))"
  "parse_line HttpFT_hooks (default_config ''feed'') ''5.6.7.8 note'' =
     Inr (Some (''5.6.7.8'', Map.empty))"
  by (simp_all add: parse_line_def normalize_def strip_def is_space_def default_config_def
        HttpFT_hooks_def process_line_default_def split_ws_def py_index_def)

lemma default_fields:
  "source_name (default_config nm) = nm"
  "force_updates (default_config nm) = False"
  "values_compare HttpFT_hooks = values_compare_default"
  by (simp_all add: default_config_def HttpFT_hooks_def)

lemma first_cycle:
  "polling_loop tick_clock HttpFT_hooks (default_config ''feed'')
     (Inr ([''1.2.3.4 note'', ''5.6.7.8 note''], None)) (init [] True) =
   (None, after_first_cycle)"
  by (simp add: polling_loop_def utc_millisec_def init_def parse_note tick_clock_def
        after_first_cycle_def default_fields
        reconcile_def stamp_def table_get_def table_put_def send_update_def emit_update_def
        act_def Let_def withdraw_old_def table_query_def indexed_def List.map_filter_simps
        index_key_def in_range_def)

lemma table_ok_after_first_cycle: "table_ok (table after_first_cycle)"
  by (simp add: table_ok_def after_first_cycle_def index_key_def)

lemma second_lines:
  "process_lines tick_clock HttpFT_hooks (default_config ''feed'') [''1.2.3.4 note'']
     (snd (utc_millisec tick_clock after_first_cycle)) =
   (None,
    after_first_cycle
      \<lparr>table :=
         [(''1.2.3.4'', [''sources'' \<mapsto> PList [PStr ''feed''], ''_updated'' \<mapsto> PInt 80,
                        ''first_seen'' \<mapsto> PInt 20, ''last_seen'' \<mapsto> PInt 90]),
          (''5.6.7.8'', [''sources'' \<mapsto> PList [PStr ''feed''], ''_updated'' \<mapsto> PInt 40,
                        ''first_seen'' \<mapsto> PInt 50, ''last_seen'' \<mapsto> PInt 60])],
       ticks := 10\<rparr>)"
  by (simp add: utc_millisec_def parse_note tick_clock_def
        after_first_cycle_def default_fields values_compare_default_def
        reconcile_def stamp_def table_get_def table_put_def send_update_def emit_update_def
        act_def Let_def)

lemma second_withdraw:
  "withdraw_old (default_config ''feed'') 70
     (after_first_cycle
      \<lparr>table :=
         [(''1.2.3.4'', [''sources'' \<mapsto> PList [PStr ''feed''], ''_updated'' \<mapsto> PInt 80,
                        ''first_seen'' \<mapsto> PInt 20, ''last_seen'' \<mapsto> PInt 90]),
          (''5.6.7.8'', [''sources'' \<mapsto> PList [PStr ''feed''], ''_updated'' \<mapsto> PInt 40,
                        ''first_seen'' \<mapsto> PInt 50, ''last_seen'' \<mapsto> PInt 60])],
       ticks := 10\<rparr>) =
   after_first_cycle
      \<lparr>table :=
         [(''1.2.3.4'', [''sources'' \<mapsto> PList [PStr ''feed''], ''_updated'' \<mapsto> PInt 80,
                        ''first_seen'' \<mapsto> PInt 20, ''last_seen'' \<mapsto> PInt 90])],
       ticks := 10,
       out := out after_first_cycle @
              [EmitWithdraw ''5.6.7.8'' [''sources'' \<mapsto> PList [PStr ''feed'']]]\<rparr>"
  by (simp add: after_first_cycle_def default_config_def
        emit_withdraw_def table_delete_def
        act_def Let_def withdraw_old_def table_query_def indexed_def List.map_filter_simps
        index_key_def in_range_def)

lemma second_now: "fst (utc_millisec tick_clock after_first_cycle) = 70"
  by (simp add: utc_millisec_def tick_clock_def after_first_cycle_def)

lemma second_cycle:
  "polling_loop tick_clock HttpFT_hooks (default_config ''feed'')
     (Inr ([''1.2.3.4 note''], None)) after_first_cycle =
   (None,
    after_first_cycle
      \<lparr>table :=
         [(''1.2.3.4'', [''sources'' \<mapsto> PList [PStr ''feed''], ''_updated'' \<mapsto> PInt 80,
                        ''first_seen'' \<mapsto> PInt 20, ''last_seen'' \<mapsto> PInt 90])],
       ticks := 10,
       out := out after_first_cycle @
              [EmitWithdraw ''5.6.7.8'' [''sources'' \<mapsto> PList [PStr ''feed'']]]\<rparr>)"
  by (simp add: polling_loop_def Let_def split_beta second_lines second_now second_withdraw
        del: process_lines.simps)

lemma tick_clock_nonneg: "\<forall>n. 0 \<le> tick_clock n"
  by (simp add: tick_clock_def)


subsection \<open>C1: the withdrawal of stale records\<close>

text \<open>
  Claim C1. A cycle that starts at time \<open>T\<close> on a table the polling loop has built and
  whose lines are processed without exception ends by deleting from the table exactly the
  records whose \<open>_updated\<close> is strictly less than \<open>T - 1\<close>, and by emitting for each of
  them, once, a withdraw of its indicator with the value \<open>{'sources': [source_name]}\<close>.
  The records are taken in the order of the scan, which is the ascending order of the key
  of the scanned index, \<open>_updated\<close>. The records whose \<open>_updated\<close> is at least
  \<open>T - 1\<close> stay in the table and are not withdrawn.
\<close>

theorem withdraw_stale:
  assumes ok: "table_ok (table s)" and nonneg: "\<forall>n. 0 \<le> clk n"
    and pl: "process_lines clk hk cfg lines (snd (utc_millisec clk s)) = (None, s1)"
  shows
   "polling_loop clk hk cfg (Inr (lines, None)) s = (None, withdraw_old cfg (clk (ticks s)) s1) \<and>
    table (withdraw_old cfg (clk (ticks s)) s1) =
      filter (\<lambda>kv. \<not> stale (clk (ticks s)) (snd kv)) (table s1) \<and>
    out (withdraw_old cfg (clk (ticks s)) s1) =
      out s1 @ map (\<lambda>kv. EmitWithdraw (fst kv) [''sources'' \<mapsto> PList [PStr (source_name cfg)]])
                 (table_query (table s1) (Some 0) (Some (clk (ticks s) - 1))) \<and>
    set (table_query (table s1) (Some 0) (Some (clk (ticks s) - 1))) =
      {kv \<in> set (table s1). stale (clk (ticks s)) (snd kv)} \<and>
    distinct (map fst (table_query (table s1) (Some 0) (Some (clk (ticks s) - 1)))) \<and>
    sorted (map (\<lambda>kv. updated_of (snd kv))
              (table_query (table s1) (Some 0) (Some (clk (ticks s) - 1))))"
proof -
  let ?s0 = "snd (utc_millisec clk s)"
  have ok0: "table_ok (table ?s0)" using ok by (simp add: utc_millisec_def)
  have ok1: "table_ok (table s1)"
    using table_ok_process_lines[OF nonneg ok0, of hk cfg lines] pl by simp
  have d1: "distinct (map fst (table s1))" using ok1 by (simp add: table_ok_def)
  have a: "polling_loop clk hk cfg (Inr (lines, None)) s =
             (None, withdraw_old cfg (clk (ticks s)) s1)"
    using pl by (simp add: polling_loop_def split_beta utc_millisec_def)
  have b: "out (withdraw_old cfg (clk (ticks s)) s1) =
      out s1 @ map (\<lambda>kv. EmitWithdraw (fst kv) [''sources'' \<mapsto> PList [PStr (source_name cfg)]])
                 (table_query (table s1) (Some 0) (Some (clk (ticks s) - 1)))"
    by (simp add: withdraw_old_def withdraw_all_out)
  from a b withdraw_old_table[OF ok1, of cfg "clk (ticks s)"]
    set_stale_query[OF ok1, of "clk (ticks s)"]
    distinct_table_query[OF d1, of "Some 0" "Some (clk (ticks s) - 1)"]
    sorted_table_query[of "table s1" "Some 0" "Some (clk (ticks s) - 1)"]
  show ?thesis by simp
qed

theorem withdraw_stale_witness:
  "table_ok (table after_first_cycle) \<and> (\<forall>n. 0 \<le> tick_clock n) \<and>
   fst (process_lines tick_clock HttpFT_hooks (default_config ''feed'') [''1.2.3.4 note'']
          (snd (utc_millisec tick_clock after_first_cycle))) = None \<and>
   polling_loop tick_clock HttpFT_hooks (default_config ''feed'')
     (Inr ([''1.2.3.4 note''], None)) after_first_cycle =
   (None,
    after_first_cycle
      \<lparr>table :=
         [(''1.2.3.4'', [''sources'' \<mapsto> PList [PStr ''feed''], ''_updated'' \<mapsto> PInt 80,
                        ''first_seen'' \<mapsto> PInt 20, ''last_seen'' \<mapsto> PInt 90])],
       ticks := 10,
       out := out after_first_cycle @
              [EmitWithdraw ''5.6.7.8'' [''sources'' \<mapsto> PList [PStr ''feed'']]]\<rparr>)"
proof -
  have T: "tick_clock (ticks after_first_cycle) = 70"
    by (simp add: tick_clock_def after_first_cycle_def)
  from withdraw_stale[OF table_ok_after_first_cycle tick_clock_nonneg second_lines]
  have "polling_loop tick_clock HttpFT_hooks (default_config ''feed'')
          (Inr ([''1.2.3.4 note''], None)) after_first_cycle =
        (None, withdraw_old (default_config ''feed'') (tick_clock (ticks after_first_cycle))
           (after_first_cycle
      \<lparr>table :=
         [(''1.2.3.4'', [''sources'' \<mapsto> PList [PStr ''feed''], ''_updated'' \<mapsto> PInt 80,
                        ''first_seen'' \<mapsto> PInt 20, ''last_seen'' \<mapsto> PInt 90]),
          (''5.6.7.8'', [''sources'' \<mapsto> PList [PStr ''feed''], ''_updated'' \<mapsto> PInt 40,
                        ''first_seen'' \<mapsto> PInt 50, ''last_seen'' \<mapsto> PInt 60])],
       ticks := 10\<rparr>))"
    by (rule conjunct1)
  then show ?thesis
    using table_ok_after_first_cycle tick_clock_nonneg
    by (simp only: T second_withdraw second_lines fst_conv simp_thms)
qed

subsection \<open>C2: when an update is emitted\<close>

text \<open>
  Claim C2. On a table the polling loop has built, an indicator with its attributes is
  stamped and put in the table in every case, so the table then holds the stamped
  attributes for it. When the table held no record for it, the update is emitted. When it
  held one and \<open>force_updates\<close> is off, the update is emitted exactly when
  \<open>_values_compare\<close> of the old record and the stamped attributes is false, which with
  the default \<open>_values_compare\<close> is never. When \<open>force_updates\<close> is on, the update is
  emitted. The table is then again one the loop has built, and a cycle does this for every
  indicator its lines produce, in their order, each on the node the one before left: the
  loop over the lines is the sequence of these steps over the indicators produced up to the
  first line that raises, every one of them is in the table afterwards, and the cycle ends
  with the exception of that line, or of the body, or with the withdrawal of the stale
  records.
\<close>

theorem emission_decision:
  assumes wf: "table_wf (table s)"
  shows "(\<exists>a'. fst (stamp clk cfg (table_get (table s) i) a s) = Inr a' \<and>
     fst (reconcile clk hk cfg i a s) = None \<and>
     table (snd (reconcile clk hk cfg i a s)) = table_put (table s) i a' \<and>
     table_get (table (snd (reconcile clk hk cfg i a s))) i = Some a' \<and>
     (table_get (table s) i = None \<longrightarrow>
        out (snd (reconcile clk hk cfg i a s)) = out s @ [EmitUpdate i a']) \<and>
     (\<forall>e. table_get (table s) i = Some e \<and> \<not> force_updates cfg \<longrightarrow>
        out (snd (reconcile clk hk cfg i a s)) =
          out s @ (if values_compare hk e a' then [] else [EmitUpdate i a'])) \<and>
     (force_updates cfg \<longrightarrow>
        out (snd (reconcile clk hk cfg i a s)) = out s @ [EmitUpdate i a']) \<and>
     (table_get (table s) i \<noteq> None \<and> \<not> force_updates cfg \<and>
      values_compare hk = values_compare_default \<longrightarrow>
        out (snd (reconcile clk hk cfg i a s)) = out s)) \<and>
    table_wf (table (snd (reconcile clk hk cfg i a s))) \<and>
    reconcile_each clk hk cfg ((i, a) # ps) s =
      reconcile_each clk hk cfg ps (snd (reconcile clk hk cfg i a s)) \<and>
    fst (reconcile_each clk hk cfg ps s) = None \<and>
    process_lines clk hk cfg lines s =
      (snd (parsed hk cfg lines),
       snd (reconcile_each clk hk cfg (fst (parsed hk cfg lines)) s)) \<and>
    (\<forall>k\<in>fst ` set (fst (parsed hk cfg lines)).
       table_get (table (snd (process_lines clk hk cfg lines s))) k \<noteq> None) \<and>
    polling_loop clk hk cfg (Inr (lines, failure)) s =
      (case snd (parsed hk cfg lines) of
         Some e \<Rightarrow>
           (Some e, snd (reconcile_each clk hk cfg (fst (parsed hk cfg lines))
                           (snd (utc_millisec clk s))))
       | None \<Rightarrow>
           (case failure of
              Some e \<Rightarrow>
                (Some e, snd (reconcile_each clk hk cfg (fst (parsed hk cfg lines))
                                (snd (utc_millisec clk s))))
            | None \<Rightarrow>
                (None, withdraw_old cfg (clk (ticks s))
                         (snd (reconcile_each clk hk cfg (fst (parsed hk cfg lines))
                                 (snd (utc_millisec clk s)))))))"
proof -
  from stamp_wf[OF wf, of clk cfg i a] obtain a' s1 where
    st: "stamp clk cfg (table_get (table s) i) a s = (Inr a', s1)" and
    s1: "s1 = s\<lparr>ticks := ticks s + (if table_get (table s) i = None then 3 else 2)\<rparr>"
    by blast
  have t1: "table s1 = table s" and o1: "out s1 = out s" using s1 by simp_all
  note rc = reconcile_Inr[OF st, of hk]
  have res: "fst (reconcile clk hk cfg i a s) = None" using rc by simp
  have tab: "table (snd (reconcile clk hk cfg i a s)) = table_put (table s) i a'"
    using rc t1 by (simp add: emit_update_def act_def)
  have got: "table_get (table (snd (reconcile clk hk cfg i a s))) i = Some a'"
    using tab by (simp add: table_get_put)
  have outp: "out (snd (reconcile clk hk cfg i a s)) =
          out s @ (if send_update hk cfg (table_get (table s) i) a' then [EmitUpdate i a'] else [])"
    using rc o1 by (simp add: emit_update_def act_def)
  have c1: "table_get (table s) i = None \<longrightarrow>
        out (snd (reconcile clk hk cfg i a s)) = out s @ [EmitUpdate i a']"
    using outp by (simp add: send_update_def)
  have c2: "\<forall>e. table_get (table s) i = Some e \<and> \<not> force_updates cfg \<longrightarrow>
        out (snd (reconcile clk hk cfg i a s)) =
          out s @ (if values_compare hk e a' then [] else [EmitUpdate i a'])"
    using outp by (simp add: send_update_def)
  have c3: "force_updates cfg \<longrightarrow>
        out (snd (reconcile clk hk cfg i a s)) = out s @ [EmitUpdate i a']"
    using outp by (simp add: send_update_def split: option.splits)
  have c4: "table_get (table s) i \<noteq> None \<and> \<not> force_updates cfg \<and>
      values_compare hk = values_compare_default \<longrightarrow>
        out (snd (reconcile clk hk cfg i a s)) = out s"
    using outp by (auto simp: send_update_def values_compare_default_def)
  have one: "\<exists>a'. fst (stamp clk cfg (table_get (table s) i) a s) = Inr a' \<and>
     fst (reconcile clk hk cfg i a s) = None \<and>
     table (snd (reconcile clk hk cfg i a s)) = table_put (table s) i a' \<and>
     table_get (table (snd (reconcile clk hk cfg i a s))) i = Some a' \<and>
     (table_get (table s) i = None \<longrightarrow>
        out (snd (reconcile clk hk cfg i a s)) = out s @ [EmitUpdate i a']) \<and>
     (\<forall>e. table_get (table s) i = Some e \<and> \<not> force_updates cfg \<longrightarrow>
        out (snd (reconcile clk hk cfg i a s)) =
          out s @ (if values_compare hk e a' then [] else [EmitUpdate i a'])) \<and>
     (force_updates cfg \<longrightarrow>
        out (snd (reconcile clk hk cfg i a s)) = out s @ [EmitUpdate i a']) \<and>
     (table_get (table s) i \<noteq> None \<and> \<not> force_updates cfg \<and>
      values_compare hk = values_compare_default \<longrightarrow>
        out (snd (reconcile clk hk cfg i a s)) = out s)"
    apply (rule exI[of _ a'])
    using st res tab got c1 c2 c3 c4 by simp
  have wf1: "table_wf (table (snd (reconcile clk hk cfg i a s)))"
    using reconcile_wf[OF wf, of clk hk cfg i a] by auto
  have step: "reconcile_each clk hk cfg ((i, a) # ps) s =
      reconcile_each clk hk cfg ps (snd (reconcile clk hk cfg i a s))"
    using res by (cases "reconcile clk hk cfg i a s") simp
  have each: "fst (reconcile_each clk hk cfg ps s) = None"
    using reconcile_each_wf[OF wf, of clk hk cfg ps] by simp
  note lines = process_lines_wf[OF wf, of clk hk cfg lines]
  have keys: "\<forall>k\<in>fst ` set (fst (parsed hk cfg lines)).
       table_get (table (snd (process_lines clk hk cfg lines s))) k \<noteq> None"
    using reconcile_each_wf[OF wf, of clk hk cfg "fst (parsed hk cfg lines)"] lines by simp
  have wf0: "table_wf (table (snd (utc_millisec clk s)))"
    using wf by (simp add: utc_millisec_def)
  have cyc: "polling_loop clk hk cfg (Inr (lines, failure)) s =
      (case snd (parsed hk cfg lines) of
         Some e \<Rightarrow>
           (Some e, snd (reconcile_each clk hk cfg (fst (parsed hk cfg lines))
                           (snd (utc_millisec clk s))))
       | None \<Rightarrow>
           (case failure of
              Some e \<Rightarrow>
                (Some e, snd (reconcile_each clk hk cfg (fst (parsed hk cfg lines))
                                (snd (utc_millisec clk s))))
            | None \<Rightarrow>
                (None, withdraw_old cfg (clk (ticks s))
                         (snd (reconcile_each clk hk cfg (fst (parsed hk cfg lines))
                                 (snd (utc_millisec clk s)))))))"
    using process_lines_wf[OF wf0, of clk hk cfg lines]
    by (simp add: polling_loop_def split_beta Let_def utc_millisec_def
          split: option.splits)
  from one wf1 step each lines keys cyc show ?thesis by (intro conjI)
qed

theorem emission_decision_witness:
  "table_wf (table (init [(''1.2.3.4'', [''_updated'' \<mapsto> PInt 5, ''first_seen'' \<mapsto> PInt 5])] True)) \<and>
   out (snd (reconcile (\<lambda>n. 100 + int n) HttpFT_hooks (default_config ''feed'') ''1.2.3.4'' Map.empty
     (init [(''1.2.3.4'', [''_updated'' \<mapsto> PInt 5, ''first_seen'' \<mapsto> PInt 5])] True))) = [] \<and>
   table_get (table (snd (reconcile (\<lambda>n. 100 + int n) HttpFT_hooks (default_config ''feed'')
     ''1.2.3.4'' Map.empty
     (init [(''1.2.3.4'', [''_updated'' \<mapsto> PInt 5, ''first_seen'' \<mapsto> PInt 5])] True))))
     ''1.2.3.4'' =
     Some [''sources'' \<mapsto> PList [PStr ''feed''], ''_updated'' \<mapsto> PInt 100,
           ''first_seen'' \<mapsto> PInt 5, ''last_seen'' \<mapsto> PInt 101] \<and>
   out (snd (reconcile (\<lambda>n. 100 + int n) HttpFT_hooks (default_config ''feed'') ''5.6.7.8'' Map.empty
     (init [(''1.2.3.4'', [''_updated'' \<mapsto> PInt 5, ''first_seen'' \<mapsto> PInt 5])] True))) =
     [EmitUpdate ''5.6.7.8''
        [''sources'' \<mapsto> PList [PStr ''feed''], ''_updated'' \<mapsto> PInt 100,
         ''first_seen'' \<mapsto> PInt 101, ''last_seen'' \<mapsto> PInt 102]] \<and>
   out (snd (reconcile (\<lambda>n. 100 + int n) HttpFT_hooks
     ((default_config ''feed'')\<lparr>force_updates := True\<rparr>) ''1.2.3.4'' Map.empty
     (init [(''1.2.3.4'', [''_updated'' \<mapsto> PInt 5, ''first_seen'' \<mapsto> PInt 5])] True))) =
     [EmitUpdate ''1.2.3.4''
        [''sources'' \<mapsto> PList [PStr ''feed''], ''_updated'' \<mapsto> PInt 100,
         ''first_seen'' \<mapsto> PInt 5, ''last_seen'' \<mapsto> PInt 101]] \<and>
   parsed HttpFT_hooks (default_config ''feed'') [''5.6.7.8 note'', ''  ''] =
     ([(''5.6.7.8'', Map.empty)], None) \<and>
   process_lines (\<lambda>n. 100 + int n) HttpFT_hooks (default_config ''feed'')
     [''5.6.7.8 note'', ''  '']
     (init [(''1.2.3.4'', [''_updated'' \<mapsto> PInt 5, ''first_seen'' \<mapsto> PInt 5])] True) =
     (None,
      snd (reconcile (\<lambda>n. 100 + int n) HttpFT_hooks (default_config ''feed'') ''5.6.7.8''
             Map.empty
             (init [(''1.2.3.4'', [''_updated'' \<mapsto> PInt 5, ''first_seen'' \<mapsto> PInt 5])]
                True))) \<and>
   table_get
     (table (snd (process_lines (\<lambda>n. 100 + int n) HttpFT_hooks (default_config ''feed'')
        [''5.6.7.8 note'', ''  '']
        (init [(''1.2.3.4'', [''_updated'' \<mapsto> PInt 5, ''first_seen'' \<mapsto> PInt 5])] True))))
     ''5.6.7.8'' \<noteq> None"
proof -
  define r0 :: attrs where "r0 = [''_updated'' \<mapsto> PInt 5, ''first_seen'' \<mapsto> PInt 5]"
  define s0 where "s0 = init [(''1.2.3.4'', r0)] True"
  define clk :: "nat \<Rightarrow> int" where "clk = (\<lambda>n. 100 + int n)"
  define cfg where "cfg = default_config ''feed''"
  define cfgf where "cfgf = (default_config ''feed'')\<lparr>force_updates := True\<rparr>"
  define known :: attrs where
    "known = [''sources'' \<mapsto> PList [PStr ''feed''], ''_updated'' \<mapsto> PInt 100,
              ''first_seen'' \<mapsto> PInt 5, ''last_seen'' \<mapsto> PInt 101]"
  define new :: attrs where
    "new = [''sources'' \<mapsto> PList [PStr ''feed''], ''_updated'' \<mapsto> PInt 100,
            ''first_seen'' \<mapsto> PInt 101, ''last_seen'' \<mapsto> PInt 102]"
  define k1 where "k1 = ''1.2.3.4''"
  define k2 where "k2 = ''5.6.7.8''"
  define ls where "ls = [''5.6.7.8 note'', ''  '']"
  have ok: "table_wf (table s0)"
    by (simp add: table_wf_def init_def s0_def r0_def)
  have pb: "parse_line HttpFT_hooks (default_config ''feed'') ''  '' = Inr None"
    by (simp add: parse_line_def normalize_def strip_def is_space_def)
  have pa: "parsed HttpFT_hooks cfg ls = ([(k2, Map.empty)], None)"
    by (simp add: ls_def cfg_def k2_def parse_note pb)
  have g1: "table_get (table s0) k1 = Some r0"
    by (simp add: table_get_def init_def s0_def k1_def)
  have g2: "table_get (table s0) k2 = None"
    by (simp add: table_get_def init_def s0_def k2_def)
  have o0: "out s0 = []" and t0: "ticks s0 = 0" by (simp_all add: init_def s0_def)
  have fu: "\<not> force_updates cfg" "force_updates cfgf"
    by (simp_all add: default_config_def cfg_def cfgf_def)
  have vc: "values_compare HttpFT_hooks = values_compare_default"
    by (simp add: HttpFT_hooks_def)
  have fs: "r0 ''first_seen'' = Some (PInt 5)" by (simp add: r0_def)
  have st1: "fst (stamp clk cfg (table_get (table s0) k1) Map.empty s0) = Inr known"
    using stamp_known[of r0 "PInt 5" clk cfg Map.empty s0] fs g1 t0
    by (simp add: clk_def cfg_def default_config_def known_def)
  have st2: "fst (stamp clk cfg (table_get (table s0) k2) Map.empty s0) = Inr new"
    using stamp_new[of clk cfg Map.empty s0] g2 t0
    by (simp add: clk_def cfg_def default_config_def new_def)
  have st3: "fst (stamp clk cfgf (table_get (table s0) k1) Map.empty s0) = Inr known"
    using stamp_known[of r0 "PInt 5" clk cfgf Map.empty s0] fs g1 t0
    by (simp add: clk_def cfgf_def default_config_def known_def)
  have a: "out (snd (reconcile clk HttpFT_hooks cfg k1 Map.empty s0)) = [] \<and>
           table_get (table (snd (reconcile clk HttpFT_hooks cfg k1 Map.empty s0))) k1 =
             Some known"
    using emission_decision[OF ok, of clk cfg k1 Map.empty HttpFT_hooks, THEN conjunct1] st1 g1 fu(1) vc o0
    by (auto simp: values_compare_default_def)
  have b: "out (snd (reconcile clk HttpFT_hooks cfg k2 Map.empty s0)) = [EmitUpdate k2 new]"
    using emission_decision[OF ok, of clk cfg k2 Map.empty HttpFT_hooks, THEN conjunct1] st2 g2 o0
    by auto
  have c: "out (snd (reconcile clk HttpFT_hooks cfgf k1 Map.empty s0)) = [EmitUpdate k1 known]"
    using emission_decision[OF ok, of clk cfgf k1 Map.empty HttpFT_hooks, THEN conjunct1] st3 fu(2) o0
    by auto
  note th = emission_decision[OF ok, where clk = clk and cfg = cfg and i = k2 and a = Map.empty
      and hk = HttpFT_hooks and ps = "[]" and lines = ls and failure = None]
  note th_step = th[THEN conjunct2, THEN conjunct2, THEN conjunct1]
  note th_lines = th[THEN conjunct2, THEN conjunct2, THEN conjunct2, THEN conjunct2,
      THEN conjunct1]
  note th_keys = th[THEN conjunct2, THEN conjunct2, THEN conjunct2, THEN conjunct2,
      THEN conjunct2, THEN conjunct1]
  have step: "reconcile_each clk HttpFT_hooks cfg [(k2, Map.empty)] s0 =
      (None, snd (reconcile clk HttpFT_hooks cfg k2 Map.empty s0))"
    by (simp only: th_step reconcile_each.simps(1))
  have d: "process_lines clk HttpFT_hooks cfg ls s0 =
      (None, snd (reconcile clk HttpFT_hooks cfg k2 Map.empty s0))"
    by (simp only: th_lines pa step fst_conv snd_conv)
  have e: "table_get (table (snd (process_lines clk HttpFT_hooks cfg ls s0))) k2 \<noteq> None"
    using th_keys unfolding pa by simp
  from ok a b c pa d e show ?thesis
    unfolding s0_def r0_def clk_def cfg_def cfgf_def known_def new_def k1_def k2_def ls_def
    by (simp only: simp_thms)
qed

subsection \<open>C3: the timestamps of a record\<close>




subsection \<open>C4: invalid RPC arguments\<close>

text \<open>
  Claim C4. \<open>get\<close> raises \<open>ValueError\<close> exactly when the indicator is not a string, and
  otherwise returns what the table holds for it (a record or nothing). \<open>get_range\<close> raises
  \<open>ValueError\<close> exactly when the index is given and is not \<open>'_updated'\<close>. When either
  raises, the node is as before: the same table, the same greenlet, and no message sent.
\<close>

theorem rpc_invalid_argument:
  "(isl (fst (get source indicator s)) \<longleftrightarrow> (\<forall>k. indicator \<noteq> PStr k)) \<and>
   ((\<forall>k. indicator \<noteq> PStr k) \<longrightarrow>
      get source indicator s = (Inl (ValueError ''Invalid indicator type''), s)) \<and>
   get source (PStr k) s = (Inr (table_get (table s) k), s) \<and>
   (isl (fst (get_range source index f t s)) \<longleftrightarrow> (index \<noteq> PNone \<and> index \<noteq> PStr ''_updated'')) \<and>
   (index \<noteq> PNone \<and> index \<noteq> PStr ''_updated'' \<longrightarrow>
      get_range source index f t s = (Inl (ValueError ''Index not found''), s)) \<and>
   (index = PNone \<or> index = PStr ''_updated'' \<longrightarrow>
      get_range source index f t s = (Inr ''OK'', send_indicators source f t s))"
  by (cases indicator) (auto simp: get_def get_range_def)

theorem rpc_invalid_argument_witness:
  "get (PStr ''peer'') (PInt 123) (init [] True) =
     (Inl (ValueError ''Invalid indicator type''), init [] True) \<and>
   get (PStr ''peer'') (PStr ''1.2.3.4'') (init [] True) =
     (Inr (table_get (table (init [] True)) ''1.2.3.4''), init [] True) \<and>
   get_range (PStr ''peer'') (PStr ''bogus_index'') None None (init [] True) =
     (Inl (ValueError ''Index not found''), init [] True)"
proof -
  have a: "\<forall>k. PInt 123 \<noteq> PStr k" by simp
  have b: "PStr ''bogus_index'' \<noteq> PNone \<and> PStr ''bogus_index'' \<noteq> PStr ''_updated''" by simp
  from rpc_invalid_argument[where source = "PStr ''peer''" and indicator = "PInt 123"
      and s = "init [] True" and index = "PStr ''bogus_index''" and f = None and t = None
      and k = "''1.2.3.4''"] a b
  show ?thesis by blast
qed

subsection \<open>C5: retries\<close>

text \<open>
  Claim C5. A pass of the loop of \<open>_run\<close> whose cycle ends with an exception other than
  \<open>GreenletExit\<close> logs the exception and increments the retry counter. If the incremented
  counter is below \<open>num_retries\<close>, the pass sleeps \<open>random.randint(1, 5)\<close> seconds, between
  1 and 5, and the loop goes on at once with the next pass and the incremented counter: the
  clock is not read again and the interval is not slept. Otherwise the pass goes on to the
  scheduling of the next cycle, and the loop goes on with the counter 0. After a cycle
  without exception the pass schedules the next cycle and the loop goes on with the
  counter 0. \<open>GreenletExit\<close> ends the loop, and the loop starts with the counter 0.
\<close>

theorem retry_policy:
  assumes pl: "polling_loop clk hk cfg r (snd (utc_millisec clk s)) = (res, s1)"
  shows
   "(res = Some e \<and> e \<noteq> GreenletExit \<and> tryn + 1 < num_retries cfg \<longrightarrow>
       run_iteration clk hk cfg r seed tryn s =
         Some (Continue (tryn + 1),
               act (SleepSeconds (randint 1 5 seed)) (act LogException s1)) \<and>
       1 \<le> randint 1 5 seed \<and> randint 1 5 seed \<le> 5) \<and>
    (res = Some e \<and> e \<noteq> GreenletExit \<and> \<not> tryn + 1 < num_retries cfg \<longrightarrow>
       run_iteration clk hk cfg r seed tryn s =
         map_option (Pair (Continue 0)) (schedule clk cfg (clk (ticks s)) (act LogException s1))) \<and>
    (res = None \<longrightarrow>
       run_iteration clk hk cfg r seed tryn s =
         map_option (Pair (Continue 0)) (schedule clk cfg (clk (ticks s)) s1)) \<and>
    (res = Some GreenletExit \<longrightarrow>
       run_iteration clk hk cfg r seed tryn s = Some (Return, s1) \<and>
       run_loop clk hk cfg ((r, seed) # rest) tryn s = Some s1) \<and>
    (res = Some e \<and> e \<noteq> GreenletExit \<and> tryn + 1 < num_retries cfg \<longrightarrow>
       run_loop clk hk cfg ((r, seed) # rest) tryn s =
         run_loop clk hk cfg rest (tryn + 1)
           (act (SleepSeconds (randint 1 5 seed)) (act LogException s1))) \<and>
    (res = Some e \<and> e \<noteq> GreenletExit \<and> \<not> tryn + 1 < num_retries cfg \<longrightarrow>
       run_loop clk hk cfg ((r, seed) # rest) tryn s =
         Option.bind (schedule clk cfg (clk (ticks s)) (act LogException s1))
           (run_loop clk hk cfg rest 0)) \<and>
    (res = None \<longrightarrow>
       run_loop clk hk cfg ((r, seed) # rest) tryn s =
         Option.bind (schedule clk cfg (clk (ticks s)) s1) (run_loop clk hk cfg rest 0)) \<and>
    run clk hk cfg inputs s0 = run_loop clk hk cfg inputs 0 (run_entry s0)"
proof -
  have lr: "fst (utc_millisec clk s) = clk (ticks s)"
    by (simp add: utc_millisec_def)
  have a: "res = Some e \<and> e \<noteq> GreenletExit \<and> tryn + 1 < num_retries cfg \<longrightarrow>
       run_iteration clk hk cfg r seed tryn s =
         Some (Continue (tryn + 1),
               act (SleepSeconds (randint 1 5 seed)) (act LogException s1))"
    using pl by (simp add: run_iteration_def split_beta Let_def)
  have b: "res = Some e \<and> e \<noteq> GreenletExit \<and> \<not> tryn + 1 < num_retries cfg \<longrightarrow>
       run_iteration clk hk cfg r seed tryn s =
         map_option (Pair (Continue 0)) (schedule clk cfg (clk (ticks s)) (act LogException s1))"
    using pl lr by (simp add: run_iteration_def split_beta Let_def)
  have c: "res = None \<longrightarrow>
       run_iteration clk hk cfg r seed tryn s =
         map_option (Pair (Continue 0)) (schedule clk cfg (clk (ticks s)) s1)"
    using pl lr by (simp add: run_iteration_def split_beta Let_def)
  have d: "res = Some GreenletExit \<longrightarrow>
       run_iteration clk hk cfg r seed tryn s = Some (Return, s1)"
    using pl by (simp add: run_iteration_def split_beta Let_def)
  have abc: "(res = Some e \<and> e \<noteq> GreenletExit \<and> tryn + 1 < num_retries cfg \<longrightarrow>
       run_iteration clk hk cfg r seed tryn s =
         Some (Continue (tryn + 1),
               act (SleepSeconds (randint 1 5 seed)) (act LogException s1)) \<and>
       1 \<le> randint 1 5 seed \<and> randint 1 5 seed \<le> 5)"
    using a randint_bounds[of 1 5 seed] by simp
  have d': "res = Some GreenletExit \<longrightarrow>
       run_iteration clk hk cfg r seed tryn s = Some (Return, s1) \<and>
       run_loop clk hk cfg ((r, seed) # rest) tryn s = Some s1"
    using d by simp
  have a': "res = Some e \<and> e \<noteq> GreenletExit \<and> tryn + 1 < num_retries cfg \<longrightarrow>
       run_loop clk hk cfg ((r, seed) # rest) tryn s =
         run_loop clk hk cfg rest (tryn + 1)
           (act (SleepSeconds (randint 1 5 seed)) (act LogException s1))"
    using a by simp
  have b': "res = Some e \<and> e \<noteq> GreenletExit \<and> \<not> tryn + 1 < num_retries cfg \<longrightarrow>
       run_loop clk hk cfg ((r, seed) # rest) tryn s =
         Option.bind (schedule clk cfg (clk (ticks s)) (act LogException s1))
           (run_loop clk hk cfg rest 0)"
    using b by (cases "schedule clk cfg (clk (ticks s)) (act LogException s1)") auto
  have c': "res = None \<longrightarrow>
       run_loop clk hk cfg ((r, seed) # rest) tryn s =
         Option.bind (schedule clk cfg (clk (ticks s)) s1) (run_loop clk hk cfg rest 0)"
    using c by (cases "schedule clk cfg (clk (ticks s)) s1") auto
  have e: "run clk hk cfg inputs s0 = run_loop clk hk cfg inputs 0 (run_entry s0)"
    by (simp add: run_def)
  from abc b c d' a' b' c' e show ?thesis by (intro conjI)
qed

theorem retry_policy_witness:
  "run_iteration tick_clock HttpFT_hooks (default_config ''feed'') (Inl RequestError) 3 0
     (init [] True) =
     Some (Continue 1, (init [] True)\<lparr>ticks := 2, out := [LogException, SleepSeconds 4]\<rparr>) \<and>
   run_iteration tick_clock HttpFT_hooks (default_config ''feed'') (Inl RequestError) 3 1
     (init [] True) =
     Some (Continue 0,
           (init [] True)\<lparr>ticks := 3, out := [LogException, SleepMillis 86399980]\<rparr>) \<and>
   run_iteration tick_clock HttpFT_hooks (default_config ''feed'') (Inr ([], None)) 3 1
     (init [] True) =
     Some (Continue 0, (init [] True)\<lparr>ticks := 3, out := [SleepMillis 86399980]\<rparr>) \<and>
   run tick_clock HttpFT_hooks (default_config ''feed'')
     [(Inl RequestError, 3), (Inl RequestError, 3), (Inr ([], None), 3), (Inl RequestError, 0)]
     (init [] True) =
     Some ((init [] True)
       \<lparr>ticks := 10,
        out := [LogException, SleepSeconds 4, LogException, SleepMillis 86399980,
                SleepMillis 86399980, LogException, SleepSeconds 1]\<rparr>)"
proof -
  define cfg where "cfg = default_config ''feed''"
  define S0 where "S0 = init [] True"
  define S1 where "S1 = S0\<lparr>ticks := 2, out := [LogException, SleepSeconds 4]\<rparr>"
  define S2 where "S2 = S0\<lparr>ticks := 5, out := [LogException, SleepSeconds 4, LogException,
                                               SleepMillis 86399980]\<rparr>"
  define S3 where "S3 = S0\<lparr>ticks := 8, out := [LogException, SleepSeconds 4, LogException,
                                               SleepMillis 86399980, SleepMillis 86399980]\<rparr>"
  define S4 where "S4 = S0\<lparr>ticks := 10, out := [LogException, SleepSeconds 4, LogException,
                         SleepMillis 86399980, SleepMillis 86399980, LogException,
                         SleepSeconds 1]\<rparr>"
  define bad :: response where "bad = Inl RequestError"
  define good :: response where "good = Inr ([], None)"
  note defs = S0_def S1_def S2_def S3_def S4_def init_def bad_def good_def
  have nr: "num_retries cfg = 2" and iv: "interval cfg = 86400"
    by (simp_all add: default_config_def cfg_def)
  have r3: "randint 1 5 3 = 4" and r0: "randint 1 5 0 = 1" by (simp_all add: randint_def)
  have bad_any: "\<And>s. polling_loop tick_clock HttpFT_hooks cfg bad (snd (utc_millisec tick_clock s)) =
            (Some RequestError, s\<lparr>ticks := ticks s + 2\<rparr>)"
    by (simp add: polling_loop_def utc_millisec_def bad_def)
  have good_any: "\<And>s. table s = [] \<Longrightarrow>
          polling_loop tick_clock HttpFT_hooks cfg good (snd (utc_millisec tick_clock s)) =
            (None, s\<lparr>ticks := ticks s + 2\<rparr>)"
    by (simp add: polling_loop_def utc_millisec_def good_def withdraw_old_def table_query_def
          indexed_def List.map_filter_simps)
  have a: "run_iteration tick_clock HttpFT_hooks cfg bad 3 0 S0 = Some (Continue 1, S1)"
    using retry_policy[OF bad_any[of S0], where e = RequestError and tryn = 0 and seed = 3,
        THEN conjunct1] nr r3
    by (simp add: act_def defs eval_nat_numeral)
  have b: "run_iteration tick_clock HttpFT_hooks cfg bad 3 1 S0 =
      Some (Continue 0, S0\<lparr>ticks := 3, out := [LogException, SleepMillis 86399980]\<rparr>)"
    using retry_policy[OF bad_any[of S0], where e = RequestError and tryn = 1 and seed = 3,
        THEN conjunct2, THEN conjunct1] nr iv
    by (simp add: schedule_eval act_def utc_millisec_def tick_clock_def defs eval_nat_numeral)
  have c: "run_iteration tick_clock HttpFT_hooks cfg good 3 1 S0 =
      Some (Continue 0, S0\<lparr>ticks := 3, out := [SleepMillis 86399980]\<rparr>)"
    using retry_policy[OF good_any[of S0], where tryn = 1 and seed = 3,
        THEN conjunct2, THEN conjunct2, THEN conjunct1] iv
    by (simp add: schedule_eval act_def utc_millisec_def tick_clock_def defs eval_nat_numeral)
  have p1: "run_loop tick_clock HttpFT_hooks cfg [(bad, 3), (bad, 3), (good, 3), (bad, 0)] 0 S0 =
            run_loop tick_clock HttpFT_hooks cfg [(bad, 3), (good, 3), (bad, 0)] 1 S1"
    using retry_policy[OF bad_any[of S0], where e = RequestError and tryn = 0 and seed = 3
        and rest = "[(bad, 3), (good, 3), (bad, 0)]",
        THEN conjunct2, THEN conjunct2, THEN conjunct2, THEN conjunct2, THEN conjunct1] nr r3
    by (simp add: act_def defs eval_nat_numeral del: run_loop.simps)
  have p2: "run_loop tick_clock HttpFT_hooks cfg [(bad, 3), (good, 3), (bad, 0)] 1 S1 =
            run_loop tick_clock HttpFT_hooks cfg [(good, 3), (bad, 0)] 0 S2"
    using retry_policy[OF bad_any[of S1], where e = RequestError and tryn = 1 and seed = 3
        and rest = "[(good, 3), (bad, 0)]",
        THEN conjunct2, THEN conjunct2, THEN conjunct2, THEN conjunct2, THEN conjunct2, THEN conjunct1] nr iv
    by (simp add: schedule_eval act_def utc_millisec_def tick_clock_def defs
          eval_nat_numeral del: run_loop.simps)
  have p3: "run_loop tick_clock HttpFT_hooks cfg [(good, 3), (bad, 0)] 0 S2 =
            run_loop tick_clock HttpFT_hooks cfg [(bad, 0)] 0 S3"
    using retry_policy[OF good_any[of S2], where tryn = 0 and seed = 3
        and rest = "[(bad, 0)]",
        THEN conjunct2, THEN conjunct2, THEN conjunct2, THEN conjunct2, THEN conjunct2, THEN conjunct2, THEN conjunct1] iv
    by (simp add: schedule_eval act_def utc_millisec_def tick_clock_def defs
          eval_nat_numeral del: run_loop.simps)
  have p4: "run_loop tick_clock HttpFT_hooks cfg [(bad, 0)] 0 S3 =
            run_loop tick_clock HttpFT_hooks cfg [] 1 S4"
    using retry_policy[OF bad_any[of S3], where e = RequestError and tryn = 0 and seed = 0
        and rest = "[]",
        THEN conjunct2, THEN conjunct2, THEN conjunct2, THEN conjunct2, THEN conjunct1] nr r0
    by (simp add: act_def defs eval_nat_numeral del: run_loop.simps)
  have entry: "run_entry S0 = S0" by (simp add: run_entry_def defs)
  have d: "run tick_clock HttpFT_hooks cfg [(bad, 3), (bad, 3), (good, 3), (bad, 0)] S0 = Some S4"
    using retry_policy[OF bad_any[of S0], where inputs = "[(bad, 3), (bad, 3), (good, 3), (bad, 0)]"
        and ?s0.0 = S0,
        THEN conjunct2, THEN conjunct2, THEN conjunct2, THEN conjunct2, THEN conjunct2, THEN conjunct2, THEN conjunct2]
    by (simp only: entry p1 p2 p3 p4 run_loop.simps(1))
  from a b c d show ?thesis
    unfolding cfg_def S1_def S4_def S0_def bad_def good_def by simp
qed

subsection \<open>C6: the time slept between cycles\<close>

text \<open>
  Claim C6, as amended. The time left is the start of the pass plus the interval minus the
  time after the cycle, in milliseconds. For every positive interval the loop that adds one
  interval and logs one warning while the time left is negative ends, and the time slept
  \<open>d\<close> is not negative. It is strictly less than the interval when the clock has
  advanced since the start of the pass, and it is the whole interval when the clock reads
  the same millisecond as at the start of the pass.
\<close>

theorem schedule_remaining:
  assumes pos: "0 < interval cfg"
  shows "\<exists>n d. schedule clk cfg lastrun s =
           Some (s\<lparr>ticks := Suc (ticks s),
                   out := out s @ replicate n LogWarning @ [SleepMillis d]\<rparr>) \<and>
         d = lastrun + interval cfg * 1000 - clk (ticks s) + int n * (interval cfg * 1000) \<and>
         0 \<le> d \<and>
         (lastrun < clk (ticks s) \<longrightarrow> d < interval cfg * 1000) \<and>
         (lastrun = clk (ticks s) \<longrightarrow> n = 0 \<and> d = interval cfg * 1000) \<and>
         (clk (ticks s) \<le> lastrun + interval cfg * 1000 \<longrightarrow> n = 0)"
proof -
  let ?d0 = "lastrun + interval cfg * 1000 - clk (ticks s)"
  let ?s1 = "s\<lparr>ticks := Suc (ticks s)\<rparr>"
  from overrun_total[OF pos, of ?d0 ?s1] obtain n where n:
    "overrun cfg ?d0 ?s1 =
       Some (?d0 + int n * (interval cfg * 1000), ?s1\<lparr>out := out ?s1 @ replicate n LogWarning\<rparr>)"
    "0 \<le> ?d0 + int n * (interval cfg * 1000)"
    "0 < n \<longrightarrow> ?d0 + int n * (interval cfg * 1000) < interval cfg * 1000"
    "0 \<le> ?d0 \<longrightarrow> n = 0"
    by blast
  let ?d = "?d0 + int n * (interval cfg * 1000)"
  have sch: "schedule clk cfg lastrun s =
           Some (s\<lparr>ticks := Suc (ticks s),
                   out := out s @ replicate n LogWarning @ [SleepMillis ?d]\<rparr>)"
    using n(1) by (simp add: schedule_def utc_millisec_def act_def)
  have lt: "lastrun < clk (ticks s) \<longrightarrow> ?d < interval cfg * 1000"
  proof
    assume l: "lastrun < clk (ticks s)"
    show "?d < interval cfg * 1000"
    proof (cases "n = 0")
      case True
      with l show ?thesis by simp
    next
      case False
      with n(3) show ?thesis by simp
    qed
  qed
  have eq: "lastrun = clk (ticks s) \<longrightarrow> n = 0 \<and> ?d = interval cfg * 1000"
    using n(4) pos by auto
  have le: "clk (ticks s) \<le> lastrun + interval cfg * 1000 \<longrightarrow> n = 0"
    using n(4) by auto
  show ?thesis
    apply (rule exI[of _ n])
    apply (rule exI[of _ ?d])
    using sch n(2) lt eq le by simp
qed

theorem schedule_remaining_witness:
  "0 < interval ((default_config ''feed'')\<lparr>interval := 1\<rparr>) \<and>
   schedule (\<lambda>n. 1500) ((default_config ''feed'')\<lparr>interval := 1\<rparr>) 0 (init [] True) =
     Some ((init [] True)\<lparr>ticks := 1, out := [LogWarning, SleepMillis 500]\<rparr>)"
proof -
  let ?cfg = "(default_config ''feed'')\<lparr>interval := 1\<rparr>"
  have iv: "interval ?cfg = 1" by simp
  have pos: "0 < interval ?cfg" by simp
  from schedule_remaining[OF pos, of "\<lambda>n. 1500" 0 "init [] True"] obtain n d where nd:
    "schedule (\<lambda>n. 1500) ?cfg 0 (init [] True) =
       Some ((init [] True)\<lparr>ticks := Suc (ticks (init [] True)),
               out := out (init [] True) @ replicate n LogWarning @ [SleepMillis d]\<rparr>)"
    "d = 0 + interval ?cfg * 1000 - 1500 + int n * (interval ?cfg * 1000)"
    "0 \<le> d"
    "(0::int) < 1500 \<longrightarrow> d < interval ?cfg * 1000"
    by blast
  from nd(2,3,4) iv have "n = 1" by simp
  with nd(2) iv have "d = 500" by simp
  with nd(1) \<open>n = 1\<close> pos show ?thesis by (simp add: init_def)
qed

text \<open>
  When the clock reads the same millisecond at the start of the pass and after the cycle,
  the whole interval is slept: the time slept is not strictly less than the interval.
\<close>

theorem schedule_full_interval_counterexample:
  "0 < interval ((default_config ''feed'')\<lparr>interval := 1\<rparr>) \<and>
   run_iteration (\<lambda>n. 5) HttpFT_hooks ((default_config ''feed'')\<lparr>interval := 1\<rparr>)
     (Inr ([], None)) 0 0 (init [] True) =
     Some (Continue 0, (init [] True)\<lparr>ticks := 3, out := [SleepMillis 1000]\<rparr>) \<and>
   \<not> (1000 < interval ((default_config ''feed'')\<lparr>interval := 1\<rparr>) * 1000)"
  by (simp add: run_iteration_def polling_loop_def utc_millisec_def init_def withdraw_old_def
        table_query_def indexed_def List.map_filter_simps schedule_def overrun.simps act_def
        default_config_def)

subsection \<open>C7: start\<close>

text \<open>
  Claim C7, as amended. \<open>start\<close> changes nothing when there is a greenlet handle, so a
  second \<open>start\<close> changes nothing; otherwise it spawns the task after a delay of
  \<open>random.randint(0, 2)\<close> seconds, a whole number between 0 and 2, both included.
\<close>

theorem start_idempotent_jitter:
  "(glet s \<noteq> None \<longrightarrow> start seed s = s) \<and>
   (glet s = None \<longrightarrow>
      start seed s = s\<lparr>glet := Some \<lparr>delay = randint 0 2 seed, killed = False\<rparr>\<rparr> \<and>
      0 \<le> randint 0 2 seed \<and> randint 0 2 seed \<le> 2) \<and>
   start seed' (start seed s) = start seed s"
  using randint_bounds[of 0 2 seed]
  by (auto simp: start_def split: option.splits)

theorem start_idempotent_jitter_witness:
  "glet (init [] True) = None \<and>
   start 1 (init [] True) =
     (init [] True)\<lparr>glet := Some \<lparr>delay = randint 0 2 1, killed = False\<rparr>\<rparr> \<and>
   0 \<le> randint 0 2 1 \<and> randint 0 2 1 \<le> 2 \<and>
   start 2 (start 1 (init [] True)) = start 1 (init [] True)"
proof -
  have g: "glet (init [] True) = None" by (simp add: init_def)
  from start_idempotent_jitter[of "init [] True" 1 2] g show ?thesis by blast
qed

text \<open>
  The delay can be 2 seconds, so it is not always strictly less than 2.
\<close>

theorem start_delay_two_counterexample:
  "glet (init [] True) = None \<and>
   glet (start 2 (init [] True)) = Some \<lparr>delay = 2, killed = False\<rparr> \<and>
   \<not> delay (the (glet (start 2 (init [] True)))) < 2"
  by (simp add: start_def init_def randint_def)

subsection \<open>C8: no restart after stop\<close>

text \<open>
  Claim C8. \<open>stop\<close> leaves the greenlet handle in place: after \<open>start\<close> and then
  \<open>stop\<close>, the handle is there in every later state, whatever is called, and every
  later \<open>start\<close> returns the node unchanged, so no new task is spawned.
\<close>

theorem stop_keeps_handle:
  assumes "run_calls clk hk cfg cs (stop (start seed s)) = Some s'"
  shows "glet (stop (start seed s)) \<noteq> None \<and> glet s' \<noteq> None \<and> start seed' s' = s'"
proof -
  have g0: "glet (stop (start seed s)) \<noteq> None"
    by (auto simp: stop_def start_def act_def Let_def split: option.splits)
  from run_calls_glet[OF assms g0] have "glet s' \<noteq> None" .
  then show ?thesis using g0 by (auto simp: start_def split: option.splits)
qed

theorem stop_keeps_handle_witness:
  "run_calls (\<lambda>n. int n) HttpFT_hooks (default_config ''feed'')
     [Length PNone, Start 7, Stop] (stop (start 1 (init [] True))) =
     Some \<lparr>glet = Some \<lparr>delay = 1, killed = True\<rparr>, table = [], active_requests = [],
           reinit_flag = True, ticks = 0, out = [KillGlet, KillGlet]\<rparr> \<and>
   glet \<lparr>glet = Some \<lparr>delay = 1, killed = True\<rparr>, table = [], active_requests = [],
         reinit_flag = True, ticks = 0, out = [KillGlet, KillGlet]\<rparr> \<noteq> None \<and>
   start 2 \<lparr>glet = Some \<lparr>delay = 1, killed = True\<rparr>, table = [], active_requests = [],
         reinit_flag = True, ticks = 0, out = [KillGlet, KillGlet]\<rparr> =
     \<lparr>glet = Some \<lparr>delay = 1, killed = True\<rparr>, table = [], active_requests = [],
         reinit_flag = True, ticks = 0, out = [KillGlet, KillGlet]\<rparr>"
proof -
  have h: "run_calls (\<lambda>n. int n) HttpFT_hooks (default_config ''feed'')
     [Length PNone, Start 7, Stop] (stop (start 1 (init [] True))) =
     Some \<lparr>glet = Some \<lparr>delay = 1, killed = True\<rparr>, table = [], active_requests = [],
           reinit_flag = True, ticks = 0, out = [KillGlet, KillGlet]\<rparr>"
    by (simp add: stop_def start_def init_def randint_def act_def length_ft_def Let_def)
  from stop_keeps_handle[OF h, of 2] h show ?thesis by simp
qed

subsection \<open>C9: the active requests stay empty\<close>

text \<open>
  Claim C9. \<open>active_requests\<close> is empty after \<open>__init__\<close> and in every state reached
  from there by the methods and the steps of the background task, a reconciliation cycle
  included; so the loop of \<open>stop\<close> over the active requests kills nothing, and \<open>stop\<close>
  only kills the greenlet.
\<close>

theorem init_requests_empty:
  assumes "run_calls clk hk cfg cs (init t reinit) = Some s'"
  shows "active_requests (init t reinit) = [] \<and> active_requests s' = [] \<and>
         kill_all (active_requests s') s' = s' \<and>
         out (stop s') = out s' @ (if glet s' = None then [] else [KillGlet])"
proof -
  have a0: "active_requests (init t reinit) = []" by (simp add: init_def)
  from run_calls_requests[OF assms a0] have a: "active_requests s' = []" .
  then show ?thesis using a0
    by (auto simp: stop_def act_def Let_def split: option.splits)
qed

theorem init_requests_empty_witness:
  "run_calls (\<lambda>n. int n) HttpFT_hooks (default_config ''feed'')
     [Start 1, Poll (Inl RequestError)] (init [] True) =
     Some \<lparr>glet = Some \<lparr>delay = 1, killed = False\<rparr>, table = [], active_requests = [],
           reinit_flag = True, ticks = 1, out = []\<rparr> \<and>
   active_requests \<lparr>glet = Some \<lparr>delay = 1, killed = False\<rparr>, table = [],
           active_requests = [], reinit_flag = True, ticks = 1, out = []\<rparr> = [] \<and>
   out (stop \<lparr>glet = Some \<lparr>delay = 1, killed = False\<rparr>, table = [], active_requests = [],
           reinit_flag = True, ticks = 1, out = []\<rparr>) = [KillGlet]"
proof -
  have h: "run_calls (\<lambda>n. int n) HttpFT_hooks (default_config ''feed'')
     [Start 1, Poll (Inl RequestError)] (init [] True) =
     Some \<lparr>glet = Some \<lparr>delay = 1, killed = False\<rparr>, table = [], active_requests = [],
           reinit_flag = True, ticks = 1, out = []\<rparr>"
    by (simp add: start_def init_def randint_def polling_loop_def utc_millisec_def)
  from init_requests_empty[OF h] h show ?thesis by simp
qed

subsection \<open>C10: a token that strips to the empty string\<close>

text \<open>
  Claim C10. A line can pass the three skips and still make its cycle fail. When the
  token that is selected from a line strips to the empty string, the line was not empty,
  did not start with the comment prefix and had enough tokens for the configured split
  character; the default \<open>_process_line\<close> then raises \<open>IndexError\<close>, since
  \<open>''.split()\<close> is empty, the line is not skipped, and the reconciliation cycle ends with
  that exception. The line \<open>a, \<close> with the split character \<open>,\<close> and \<open>split_pos = 1\<close>
  is such a line.
\<close>

theorem empty_token_raises:
  assumes n: "normalize cfg raw = Inr (Some [])"
  shows "strip raw \<noteq> [] \<and>
         (case cchar cfg of None \<Rightarrow> True | Some c \<Rightarrow> \<not> prefix c (strip raw)) \<and>
         (\<exists>sc toks. split_char cfg = Some sc \<and> py_split sc (strip raw) = Inr toks \<and>
                    split_pos cfg + 1 \<le> int (length toks) \<and>
                    (\<exists>tok. py_index toks (split_pos cfg) = Inr tok \<and> strip tok = [])) \<and>
         process_line_default cfg [] = Inl IndexError \<and>
         parse_line HttpFT_hooks cfg raw = Inl IndexError \<and>
         polling_loop clk HttpFT_hooks cfg (Inr (raw # rest, failure)) s =
           (Some IndexError, snd (utc_millisec clk s))"
proof -
  have a: "strip raw \<noteq> []"
    using n by (auto simp: normalize_def Let_def split: if_splits)
  have b: "case cchar cfg of None \<Rightarrow> True | Some c \<Rightarrow> \<not> prefix c (strip raw)"
    using n by (auto simp: normalize_def Let_def split: if_splits option.splits)
  have c: "\<exists>sc toks. split_char cfg = Some sc \<and> py_split sc (strip raw) = Inr toks \<and>
                    split_pos cfg + 1 \<le> int (length toks) \<and>
                    (\<exists>tok. py_index toks (split_pos cfg) = Inr tok \<and> strip tok = [])"
    using n a by (auto simp: normalize_def Let_def split: if_splits option.splits sum.splits)
  have d: "process_line_default cfg [] = Inl IndexError"
    by (simp add: process_line_default_def split_ws_def py_index_def)
  have e: "parse_line HttpFT_hooks cfg raw = Inl IndexError"
    using n d by (simp add: parse_line_def HttpFT_hooks_def)
  have f: "polling_loop clk HttpFT_hooks cfg (Inr (raw # rest, failure)) s =
           (Some IndexError, snd (utc_millisec clk s))"
    using e by (simp add: polling_loop_def split_beta Let_def)
  from a b c d e f show ?thesis by simp
qed

theorem empty_token_raises_witness:
  "normalize ((default_config ''feed'')\<lparr>split_char := Some '','', split_pos := 1\<rparr>) ''a, '' =
     Inr (Some []) \<and>
   strip ''a, '' \<noteq> [] \<and>
   py_split '','' (strip ''a, '') = Inr [''a'', []] \<and>
   parse_line HttpFT_hooks ((default_config ''feed'')\<lparr>split_char := Some '','', split_pos := 1\<rparr>)
     ''a, '' = Inl IndexError \<and>
   polling_loop tick_clock HttpFT_hooks
     ((default_config ''feed'')\<lparr>split_char := Some '','', split_pos := 1\<rparr>)
     (Inr ([''a, ''], None)) (init [] True) =
     (Some IndexError, snd (utc_millisec tick_clock (init [] True)))"
proof -
  let ?cfg = "(default_config ''feed'')\<lparr>split_char := Some '','', split_pos := 1\<rparr>"
  have sp: "py_split '','' (strip ''a, '') = Inr [''a'', []]"
    by (simp add: strip_def is_space_def py_split_def)
  have n: "normalize ?cfg ''a, '' = Inr (Some [])"
    by (simp add: strip_def is_space_def default_config_def py_split_def normalize_def
          py_index_def)
  from empty_token_raises[OF n, of tick_clock "[]" None "init [] True"] n sp
  show ?thesis by simp
qed

subsection \<open>Further properties\<close>

text \<open>
  The invariant of the table. The empty table satisfies it, and a reconciliation cycle
  keeps it, however it ends, when the clock is not negative: every indicator is in the
  table once, with a \<open>first_seen\<close> and an integer \<open>_updated\<close> that is not negative.
\<close>

theorem table_ok_kept:
  "table_ok [] \<and>
   (table_ok (table s) \<and> (\<forall>n. 0 \<le> clk n) \<longrightarrow>
      table_ok (table (snd (polling_loop clk hk cfg r s))))"
  using table_ok_Nil table_ok_polling_loop[of s clk hk cfg r] by blast

theorem table_ok_kept_witness:
  "table_ok (table (init [] True)) \<and> (\<forall>n. 0 \<le> tick_clock n) \<and>
   table_ok (table (snd (polling_loop tick_clock HttpFT_hooks (default_config ''feed'')
      (Inr ([''1.2.3.4 note'', ''5.6.7.8 note''], None)) (init [] True))))"
proof -
  have t0: "table_ok (table (init [] True))" by (simp add: init_def table_ok_def)
  from table_ok_kept[of "init [] True" tick_clock HttpFT_hooks "default_config ''feed''"
      "Inr ([''1.2.3.4 note'', ''5.6.7.8 note''], None)"] t0 tick_clock_nonneg
  show ?thesis by blast
qed

text \<open>
  The scenario of two cycles. From an empty table the feed \<open>1.2.3.4 note\<close>,
  \<open>5.6.7.8 note\<close> gives two updates. A second cycle whose feed is \<open>1.2.3.4 note\<close> alone
  gives one withdraw, of \<open>5.6.7.8\<close> with the value \<open>{'sources': ['feed']}\<close>, and no
  update; the record of \<open>1.2.3.4\<close> keeps its \<open>first_seen\<close> and gets a new \<open>_updated\<close>
  and \<open>last_seen\<close>.
\<close>

theorem feed_scenario:
  "run_calls tick_clock HttpFT_hooks (default_config ''feed'')
     [Poll (Inr ([''1.2.3.4 note'', ''5.6.7.8 note''], None)),
      Poll (Inr ([''1.2.3.4 note''], None))] (init [] True) =
   Some \<lparr>glet = None,
     table =
       [(''1.2.3.4'', [''sources'' \<mapsto> PList [PStr ''feed''], ''_updated'' \<mapsto> PInt 80,
                      ''first_seen'' \<mapsto> PInt 20, ''last_seen'' \<mapsto> PInt 90])],
     active_requests = [], reinit_flag = True, ticks = 10,
     out =
       [EmitUpdate ''1.2.3.4''
          [''sources'' \<mapsto> PList [PStr ''feed''], ''_updated'' \<mapsto> PInt 10,
           ''first_seen'' \<mapsto> PInt 20, ''last_seen'' \<mapsto> PInt 30],
        EmitUpdate ''5.6.7.8''
          [''sources'' \<mapsto> PList [PStr ''feed''], ''_updated'' \<mapsto> PInt 40,
           ''first_seen'' \<mapsto> PInt 50, ''last_seen'' \<mapsto> PInt 60],
        EmitWithdraw ''5.6.7.8'' [''sources'' \<mapsto> PList [PStr ''feed'']]]\<rparr>"
  by (simp add: first_cycle second_cycle del: process_lines.simps)
     (simp add: after_first_cycle_def)

end
